theory Spec2Isabelle
  imports Complex_Main "HOL-Library.AList" "HOL-Library.Log_Nat" "HOL-Library.Sublist"
begin

section \<open>The custom operator stub (main.cpp, lines 10-33)\<close>

text \<open>
  A graph node as far as \<^verbatim>\<open>CustomAddMul\<close> touches it: the element type and partial shape
  of every input, and the output descriptors that \<^verbatim>\<open>set_output_type\<close> writes. The engine's
  types \<^verbatim>\<open>ov::element::Type\<close> and \<^verbatim>\<open>ov::PartialShape\<close> are not declared in the repository;
  they are the type parameters \<open>'t\<close> and \<open>'s\<close>.
\<close>

type_synonym exn = string \<comment> \<open>a \<^verbatim>\<open>std::exception\<close>, by its \<^verbatim>\<open>what()\<close>\<close>

record ('t, 's) node =
  inputs :: "('t \<times> 's) list"
  outputs :: "nat \<rightharpoonup> 't \<times> 's"

definition get_input_size :: "('t, 's) node \<Rightarrow> nat" where
  "get_input_size n = length (inputs n)"

definition get_input_element_type :: "('t, 's) node \<Rightarrow> nat \<Rightarrow> exn + 't" where
  "get_input_element_type n i =
     (if i < length (inputs n) then Inr (fst (inputs n ! i)) else Inl ''input index out of range'')"

definition get_input_partial_shape :: "('t, 's) node \<Rightarrow> nat \<Rightarrow> exn + 's" where
  "get_input_partial_shape n i =
     (if i < length (inputs n) then Inr (snd (inputs n ! i)) else Inl ''input index out of range'')"

definition set_output_type :: "nat \<Rightarrow> 't \<Rightarrow> 's \<Rightarrow> ('t, 's) node \<Rightarrow> ('t, 's) node" where
  "set_output_type i t s n = n\<lparr>outputs := (outputs n)(i \<mapsto> (t, s))\<rparr>"

text \<open>Lines 19-24. The arguments of \<^verbatim>\<open>set_output_type\<close> are evaluated first; either may throw.\<close>

definition validate_and_infer_types :: "('t, 's) node \<Rightarrow> exn + ('t, 's) node" where
  "validate_and_infer_types n =
     (if get_input_size n > 0 then
        (case get_input_element_type n 0 of
           Inl e \<Rightarrow> Inl e
         | Inr t \<Rightarrow>
             (case get_input_partial_shape n 0 of
                Inl e \<Rightarrow> Inl e
              | Inr s \<Rightarrow> Inr (set_output_type 0 t s n)))
      else Inr n)"

text \<open>Lines 15-17 and 26-28: the constructor from arguments, and cloning with new inputs.\<close>

definition CustomAddMul :: "('t \<times> 's) list \<Rightarrow> exn + ('t, 's) node" where
  "CustomAddMul args = validate_and_infer_types \<lparr>inputs = args, outputs = Map.empty\<rparr>"

definition clone_with_new_inputs :: "('t, 's) node \<Rightarrow> ('t \<times> 's) list \<Rightarrow> exn + ('t, 's) node" where
  "clone_with_new_inputs n new_args = CustomAddMul new_args"

section \<open>Single-precision values\<close>

text \<open>
  A C++ \<^verbatim>\<open>float\<close> as an IEEE 754 binary32 datum: not-a-number, the two infinities, or a
  finite value, held as the rational it denotes. The two zeros are identified (they compare
  equal, and the program neither divides nor takes a sign). Arithmetic rounds the exact
  result to the nearest binary32 value, ties to even, and overflows to an infinity.
\<close>

datatype f32 = NaN | PInf | NInf | Fin rat

definition pow2 :: "int \<Rightarrow> rat" where
  "pow2 e = (if 0 \<le> e then 2 ^ nat e else 1 / 2 ^ nat (- e))"

text \<open>\<open>ilog2 a\<close> is the exponent \<open>e\<close> with \<open>2\<^sup>e \<le> a < 2\<^sup>e\<^sup>+\<^sup>1\<close>, for \<open>a > 0\<close>.\<close>

definition ilog2 :: "rat \<Rightarrow> int" where
  "ilog2 a = (if 1 \<le> a then bitlen \<lfloor>a\<rfloor> - 1 else - bitlen (\<lceil>1 / a\<rceil> - 1))"

definition round_even :: "rat \<Rightarrow> int" where
  "round_even x =
     (let f = \<lfloor>x\<rfloor>; d = x - of_int f
      in if d < 1 / 2 then f else if 1 / 2 < d then f + 1 else if even f then f else f + 1)"

text \<open>
  Rounding to the nearest value with \<open>p\<close> significant bits and a least quantum of \<open>2\<^sup>q\<^sup>m\<^sup>i\<^sup>n\<close>,
  ties to even, with no bound on the exponent.
\<close>

definition round_nearest_even :: "int \<Rightarrow> int \<Rightarrow> rat \<Rightarrow> rat" where
  "round_nearest_even p qmin r =
     (if r = 0 then 0
      else let a = \<bar>r\<bar>;
               q = max (ilog2 a - (p - 1)) qmin
           in sgn r * (of_int (round_even (a / pow2 q)) * pow2 q))"

text \<open>
  binary32 has 24 significant bits and a least quantum of \<open>2\<^sup>-\<^sup>1\<^sup>4\<^sup>9\<close>; a rounded magnitude of
  \<open>2\<^sup>1\<^sup>2\<^sup>8\<close> or more is an overflow.
\<close>

definition round_f32 :: "rat \<Rightarrow> f32" where
  "round_f32 r =
     (let v = round_nearest_even 24 (- 149) r
      in if 2 ^ 128 \<le> \<bar>v\<bar> then (if 0 < r then PInf else NInf) else Fin v)"

fun fneg :: "f32 \<Rightarrow> f32" where
  "fneg NaN = NaN"
| "fneg PInf = NInf"
| "fneg NInf = PInf"
| "fneg (Fin a) = Fin (- a)"

fun fadd :: "f32 \<Rightarrow> f32 \<Rightarrow> f32" where
  "fadd NaN y = NaN"
| "fadd x NaN = NaN"
| "fadd PInf NInf = NaN"
| "fadd NInf PInf = NaN"
| "fadd PInf y = PInf"
| "fadd NInf y = NInf"
| "fadd x PInf = PInf"
| "fadd x NInf = NInf"
| "fadd (Fin a) (Fin b) = round_f32 (a + b)"

definition fsub :: "f32 \<Rightarrow> f32 \<Rightarrow> f32" where
  "fsub x y = fadd x (fneg y)"

text \<open>The sign of a non-NaN value: \<open>-1\<close>, \<open>0\<close> or \<open>1\<close>.\<close>

fun fsgn :: "f32 \<Rightarrow> rat" where
  "fsgn NaN = 0"
| "fsgn PInf = 1"
| "fsgn NInf = - 1"
| "fsgn (Fin a) = sgn a"

fun fmul :: "f32 \<Rightarrow> f32 \<Rightarrow> f32" where
  "fmul NaN y = NaN"
| "fmul x NaN = NaN"
| "fmul (Fin a) (Fin b) = round_f32 (a * b)"
| "fmul x y =
     (if fsgn x * fsgn y = 0 then NaN else if 0 < fsgn x * fsgn y then PInf else NInf)"

text \<open>\<^verbatim>\<open>std::abs\<close> on a float.\<close>

fun fabs :: "f32 \<Rightarrow> f32" where
  "fabs NaN = NaN"
| "fabs PInf = PInf"
| "fabs NInf = PInf"
| "fabs (Fin a) = Fin \<bar>a\<bar>"

text \<open>The operator \<^verbatim>\<open><\<close>: false whenever an operand is not a number.\<close>

fun flt :: "f32 \<Rightarrow> f32 \<Rightarrow> bool" where
  "flt NaN y = False"
| "flt x NaN = False"
| "flt PInf y = False"
| "flt x NInf = False"
| "flt NInf y = True"
| "flt x PInf = True"
| "flt (Fin a) (Fin b) = (a < b)"

text \<open>The operator \<^verbatim>\<open><=\<close>: false whenever an operand is not a number.\<close>

fun fle :: "f32 \<Rightarrow> f32 \<Rightarrow> bool" where
  "fle NaN y = False"
| "fle x NaN = False"
| "fle NInf y = True"
| "fle x PInf = True"
| "fle PInf y = False"
| "fle x NInf = False"
| "fle (Fin a) (Fin b) = (a \<le> b)"

text \<open>\<^verbatim>\<open>std::max(a, b)\<close> is \<^verbatim>\<open>(a < b) ? b : a\<close>.\<close>

definition fmax :: "f32 \<Rightarrow> f32 \<Rightarrow> f32" where
  "fmax a b = (if flt a b then b else a)"

text \<open>
  In \<^verbatim>\<open>diff > 1e-3\<close> the float is converted to \<^verbatim>\<open>double\<close> (exactly) and compared with the
  \<^verbatim>\<open>double\<close> literal. \<open>gt_double x c\<close> and \<open>le_double x c\<close> compare a float with a finite
  double of value \<open>c\<close>.
\<close>

fun gt_double :: "f32 \<Rightarrow> rat \<Rightarrow> bool" where
  "gt_double NaN c = False"
| "gt_double PInf c = True"
| "gt_double NInf c = False"
| "gt_double (Fin a) c = (c < a)"

fun le_double :: "f32 \<Rightarrow> rat \<Rightarrow> bool" where
  "le_double NaN c = False"
| "le_double PInf c = False"
| "le_double NInf c = True"
| "le_double (Fin a) c = (a \<le> c)"

text \<open>
  The value of the literal \<^verbatim>\<open>1e-3\<close>: the \<^verbatim>\<open>double\<close> nearest to \<open>0.001\<close> (binary64 has 53
  significant bits and a least quantum of \<open>2\<^sup>-\<^sup>1\<^sup>0\<^sup>7\<^sup>4\<close>).
\<close>

definition tolerance :: rat where
  "tolerance = round_nearest_even 53 (- 1074) (1 / 1000)"

section \<open>Tensors and the random fill (lines 36-44)\<close>

record tensor =
  shape :: "nat list"
  data :: "f32 list"

text \<open>\<^verbatim>\<open>get_size()\<close> is the product of the dimensions.\<close>

definition get_size :: "tensor \<Rightarrow> nat" where
  "get_size t = prod_list (shape t)"

text \<open>A read through a raw pointer into a buffer: outside the buffer it is undefined.\<close>

definition rd :: "'a list \<Rightarrow> nat \<Rightarrow> 'a option" where
  "rd xs i = (if i < length xs then Some (xs ! i) else None)"

text \<open>
  The loop of \<^verbatim>\<open>fill_tensor\<close>. \<open>dis\<close> is one draw \<^verbatim>\<open>dis(gen)\<close> of the distribution, which
  advances the generator, and \<open>sz\<close> the local \<^verbatim>\<open>size\<close>; a write outside the buffer is
  undefined (\<open>None\<close>).
\<close>

function fill_loop :: "('g \<Rightarrow> f32 \<times> 'g) \<Rightarrow> nat \<Rightarrow> nat \<Rightarrow> 'g \<Rightarrow> f32 list \<Rightarrow> f32 list option" where
  "fill_loop dis sz i gen buf =
     (if i < sz then
        (if i < length buf then
           (case dis gen of (v, gen') \<Rightarrow> fill_loop dis sz (Suc i) gen' (buf[i := v]))
         else None)
      else Some buf)"
  by pat_completeness auto
termination
  by (relation "measure (\<lambda>(dis, sz, i, gen, buf). sz - i)") auto

text \<open>
  The standard library is not part of the repository: \<open>mt19937 s\<close> is the generator
  state after seeding with \<open>s\<close>, and \<open>uniform_real\<close> one draw of
  \<^verbatim>\<open>std::uniform_real_distribution<float>(0.0f, 1.0f)\<close>.
\<close>

record 'g stdlib =
  mt19937 :: "nat \<Rightarrow> 'g"
  uniform_real :: "'g \<Rightarrow> f32 \<times> 'g"

definition fill_tensor :: "'g stdlib \<Rightarrow> tensor \<Rightarrow> tensor option" where
  "fill_tensor lib t =
     (case fill_loop (uniform_real lib) (get_size t) 0 (mt19937 lib 42) (data t) of
        None \<Rightarrow> None
      | Some buf \<Rightarrow> Some (t\<lparr>data := buf\<rparr>))"

section \<open>Output, engine calls and outcomes\<close>

text \<open>
  What is inserted into a stream with \<^verbatim>\<open><<\<close>: a string, a \<^verbatim>\<open>size_t\<close>, an \<^verbatim>\<open>int\<close>, a
  \<^verbatim>\<open>float\<close>, or a \<^verbatim>\<open>double\<close> (the elapsed seconds).
\<close>

datatype tok = S string | N nat | I int | F f32 | D rat

text \<open>The calls into the inference engine and the clock, as they appear in \<^verbatim>\<open>main\<close>.\<close>

datatype any = AnyString string | AnyF32

datatype call =
    CreateCore
  | AddExtension
  | GetAvailableDevices
  | ReadModel string
  | CompileModel string "(string \<times> any) list"
  | CreateInferRequest
  | GetInputTensor nat
  | Infer
  | GetOutputTensor nat
  | ClockNow

text \<open>
  An effect of the run: a line on \<^verbatim>\<open>std::cout\<close> or on \<^verbatim>\<open>std::cerr\<close> (ended by
  \<^verbatim>\<open>std::endl\<close>), or a call.
\<close>

datatype event = Out "tok list" | Err "tok list" | Call call

text \<open>
  How a piece of the program ends: normally with a value, by an exception, or in undefined
  behaviour (an access outside a buffer, a signed overflow).
\<close>

datatype 'a res = Ok 'a | Throw exn | Undefined

type_synonym 'a step = "event list \<times> 'a res"

definition and_then :: "'a step \<Rightarrow> ('a \<Rightarrow> 'b step) \<Rightarrow> 'b step" where
  "and_then m f =
     (case m of
        (tr, Ok a) \<Rightarrow> (case f a of (tr', r) \<Rightarrow> (tr @ tr', r))
      | (tr, Throw e) \<Rightarrow> (tr, Throw e)
      | (tr, Undefined) \<Rightarrow> (tr, Undefined))"

definition engine :: "call \<Rightarrow> exn + 'a \<Rightarrow> 'a step" where
  "engine c r = ([Call c], case r of Inl e \<Rightarrow> Throw e | Inr a \<Rightarrow> Ok a)"

definition cout :: "tok list \<Rightarrow> unit step" where
  "cout l = ([Out l], Ok ())"

definition cerr :: "tok list \<Rightarrow> unit step" where
  "cerr l = ([Err l], Ok ())"

definition defined :: "'a option \<Rightarrow> 'a step" where
  "defined x = (case x of None \<Rightarrow> ([], Undefined) | Some a \<Rightarrow> ([], Ok a))"

text \<open>
  The world outside the program: what each engine call returns or throws, the readings of
  \<^verbatim>\<open>high_resolution_clock::now()\<close> in seconds (reading \<open>0\<close> is \<^verbatim>\<open>start\<close>, reading \<open>k\<close> the
  one taken after the \<open>k\<close>-th inference of the stress loop), and the standard library's
  generator. \<open>infer w k\<close> is the \<open>k\<close>-th call of \<^verbatim>\<open>request.infer()\<close> (call \<open>0\<close> is the
  verified one) on the three bound inputs; it leaves the output tensor or throws. Every
  engine call returns or throws; the engine's exceptions derive from \<^verbatim>\<open>std::exception\<close>,
  and the tensors hold \<^verbatim>\<open>float\<close> elements.
\<close>

record 'g world =
  create_core :: "exn + unit"
  add_extension :: "exn + unit"
  get_available_devices :: "exn + string list"
  read_model :: "string \<Rightarrow> exn + unit"
  compile_model :: "string \<Rightarrow> (string \<times> any) list \<Rightarrow> exn + unit"
  create_infer_request :: "exn + unit"
  get_input_tensor :: "nat \<Rightarrow> exn + tensor"
  infer :: "nat \<Rightarrow> tensor \<Rightarrow> tensor \<Rightarrow> tensor \<Rightarrow> exn + tensor"
  get_output_tensor :: "nat \<Rightarrow> exn + unit"
  clock_now :: "nat \<Rightarrow> rat"
  inference_precision_name :: string
  std :: "'g stdlib"

section \<open>The device check (lines 56-70)\<close>

text \<open>\<^verbatim>\<open>std::string::find\<close>: the first position at which \<open>pat\<close> occurs in \<open>s\<close>, or \<^verbatim>\<open>npos\<close>.\<close>

fun str_find :: "string \<Rightarrow> string \<Rightarrow> nat option" where
  "str_find [] pat = (if pat = [] then Some 0 else None)"
| "str_find (c # cs) pat =
     (if prefix pat (c # cs) then Some 0 else map_option Suc (str_find cs pat))"

text \<open>The loop of lines 58-63, which stops at the first device whose name contains GPU.\<close>

fun gpu_found :: "string list \<Rightarrow> bool" where
  "gpu_found [] = False"
| "gpu_found (device # devices) =
     (if str_find device ''GPU'' \<noteq> None then True else gpu_found devices)"

definition available_devices_line :: "string list \<Rightarrow> tok list" where
  "available_devices_line devices =
     S ''Available devices: '' # concat (map (\<lambda>d. [S d, S '' '']) devices)"

definition gpu_warning :: "string list \<Rightarrow> event list" where
  "gpu_warning devices =
     (if \<not> gpu_found devices then
        [Err [S ''GPU not found! This tutorial requires an Intel GPU.''],
         Err (available_devices_line devices)]
      else [])"

section \<open>Verification (lines 124-144)\<close>

definition mismatch_line :: "nat \<Rightarrow> f32 \<Rightarrow> f32 \<Rightarrow> event" where
  "mismatch_line i got expected =
     Out [S ''Mismatch at '', N i, S '': got '', F got, S '', expected '', F expected]"

text \<open>
  The loop of lines 128-138 from index \<open>i\<close>, on the state \<open>(max_diff, success)\<close> and the lines
  printed so far; \<open>sz\<close> is the local \<^verbatim>\<open>size\<close>. A read outside a buffer is undefined.
\<close>

function verify_loop ::
  "f32 list \<Rightarrow> f32 list \<Rightarrow> f32 list \<Rightarrow> f32 list \<Rightarrow> nat \<Rightarrow> nat \<Rightarrow> f32 \<times> bool \<times> event list
     \<Rightarrow> (f32 \<times> bool \<times> event list) option" where
  "verify_loop out_data in0_data in1_data in2_data sz i (max_diff, success, tr) =
     (if i < sz then
        (case (rd in0_data i, rd in1_data i, rd in2_data i, rd out_data i) of
           (Some a, Some b, Some c, Some y) \<Rightarrow>
             (let expected = fmul (fadd a b) c;
                  diff = fabs (fsub y expected)
              in if gt_double diff tolerance then
                   verify_loop out_data in0_data in1_data in2_data sz (Suc i)
                     (fmax max_diff diff, False,
                      if i < 5 then tr @ [mismatch_line i y expected] else tr)
                 else verify_loop out_data in0_data in1_data in2_data sz (Suc i)
                     (max_diff, success, tr))
         | _ \<Rightarrow> None)
      else Some (max_diff, success, tr))"
  by pat_completeness auto
termination
  by (relation "measure (\<lambda>(out_data, in0_data, in1_data, in2_data, sz, i, st). sz - i)") auto

text \<open>Lines 126-138: the loop from its initial state.\<close>

definition verify :: "tensor \<Rightarrow> tensor \<Rightarrow> tensor \<Rightarrow> tensor \<Rightarrow> (f32 \<times> bool \<times> event list) option" where
  "verify output input0 input1 input2 =
     verify_loop (data output) (data input0) (data input1) (data input2) (get_size output) 0
       (Fin 0, True, [])"

text \<open>Lines 140-144.\<close>

definition verdict :: "f32 \<Rightarrow> bool \<Rightarrow> event" where
  "verdict max_diff success =
     (if success then Out [S ''SUCCESS: Result matches expected output!'']
      else Out [S ''FAILURE: Max difference: '', F max_diff])"

section \<open>The stress loop (lines 147-162)\<close>

text \<open>The remainder of C++ integer division, which truncates towards zero.\<close>

definition c_rem :: "int \<Rightarrow> int \<Rightarrow> int" where
  "c_rem a b = sgn a * (\<bar>a\<bar> mod \<bar>b\<bar>)"

definition progress_line :: "int \<Rightarrow> rat \<Rightarrow> event" where
  "progress_line iterations elapsed =
     Out [S ''Iterations: '', I iterations, S '', Time: '', D elapsed, S ''s'']"

text \<open>
  The loop \<^verbatim>\<open>while (true)\<close> entered with \<open>iterations\<close> completed iterations. It may run
  forever (\<open>None\<close>). \<^verbatim>\<open>iterations\<close> is an \<^verbatim>\<open>int\<close>: incrementing \<open>2\<^sup>3\<^sup>1 - 1\<close> is undefined.
\<close>

partial_function (option) stress_loop ::
  "'g world \<Rightarrow> tensor \<times> tensor \<times> tensor \<Rightarrow> rat \<Rightarrow> int \<Rightarrow> event list \<Rightarrow> (event list \<times> int res) option" where
  "stress_loop w ins start iterations tr =
     (case ins of (input0, input1, input2) \<Rightarrow>
        (case infer w (nat iterations + 1) input0 input1 input2 of
           Inl e \<Rightarrow> Some (tr @ [Call Infer], Throw e)
         | Inr output \<Rightarrow>
             if iterations = 2147483647 then Some (tr @ [Call Infer], Undefined)
             else
               (let iterations' = iterations + 1;
                    now = clock_now w (nat iterations');
                    elapsed = now - start;
                    tr' = tr @ [Call Infer, Call ClockNow]
                in if 30 \<le> elapsed then Some (tr', Ok iterations')
                   else stress_loop w ins start iterations'
                          (if c_rem iterations' 10 = 0
                           then tr' @ [progress_line iterations' elapsed] else tr'))))"

definition stress_test :: "'g world \<Rightarrow> tensor \<times> tensor \<times> tensor \<Rightarrow> unit step option" where
  "stress_test w ins =
     (let tr = [Out [S (CHR 0x0A # ''Starting stress test for 30 seconds...'')], Call ClockNow];
          start = clock_now w 0
      in case stress_loop w ins start 0 tr of
           None \<Rightarrow> None
         | Some (tr', Ok iterations) \<Rightarrow>
             Some (tr' @ [Out [S ''Stress test complete. Total iterations: '', I iterations]], Ok ())
         | Some (tr', Throw e) \<Rightarrow> Some (tr', Throw e)
         | Some (tr', Undefined) \<Rightarrow> Some (tr', Undefined))"

section \<open>The main procedure (lines 46-169)\<close>

text \<open>\<^verbatim>\<open>shape[k]\<close> on the vector of dimensions: undefined outside it.\<close>

definition shape_at :: "nat list \<Rightarrow> nat \<Rightarrow> nat option" where
  "shape_at s k = rd s k"

text \<open>
  Lines 79-83: the configuration, an \<^verbatim>\<open>ov::AnyMap\<close>, after the two assignments. The key of the
  second is \<^verbatim>\<open>ov::hint::inference_precision.name()\<close>, a constant of the engine.
\<close>

definition config_map :: "'g world \<Rightarrow> string \<Rightarrow> (string \<times> any) list" where
  "config_map w custom_xml =
     AList.update (inference_precision_name w) AnyF32
       (AList.update ''CONFIG_FILE'' (AnyString custom_xml) [])"

text \<open>Lines 72-110: configuration, model, request, the inputs and their fill.\<close>

definition prepare :: "'g world \<Rightarrow> (tensor \<times> tensor \<times> tensor) step" where
  "prepare w =
     (let custom_xml = ''custom_add_mul.xml''; model_xml = ''model.xml'' in
      and_then (cout [S ''Loading custom layer config from '', S custom_xml, S ''...'']) (\<lambda>_.
      let config = config_map w custom_xml in
      and_then (cout [S ''Reading model from '', S model_xml, S ''...'']) (\<lambda>_.
      and_then (engine (ReadModel model_xml) (read_model w model_xml)) (\<lambda>_.
      and_then (cout [S ''Compiling model on GPU...'']) (\<lambda>_.
      and_then (engine (CompileModel ''GPU'' config) (compile_model w ''GPU'' config)) (\<lambda>_.
      and_then (engine CreateInferRequest (create_infer_request w)) (\<lambda>_.
      and_then (engine (GetInputTensor 0) (get_input_tensor w 0)) (\<lambda>input0.
      and_then (engine (GetInputTensor 1) (get_input_tensor w 1)) (\<lambda>input1.
      and_then (engine (GetInputTensor 2) (get_input_tensor w 2)) (\<lambda>input2.
      and_then (defined (shape_at (shape input0) 2)) (\<lambda>H.
      and_then (defined (shape_at (shape input0) 3)) (\<lambda>W.
      and_then (cout [S ''Generating input data ('', N H, S ''x'', N W, S '')...'']) (\<lambda>_.
      and_then (defined (fill_tensor (std w) input0)) (\<lambda>input0.
      and_then (defined (fill_tensor (std w) input1)) (\<lambda>input1.
      and_then (defined (fill_tensor (std w) input2)) (\<lambda>input2.
      ([], Ok (input0, input1, input2))))))))))))))))))"

text \<open>Lines 112-144: the single inference and its verification.\<close>

definition run_and_verify :: "'g world \<Rightarrow> tensor \<times> tensor \<times> tensor \<Rightarrow> unit step" where
  "run_and_verify w ins =
     (case ins of (input0, input1, input2) \<Rightarrow>
      and_then (cout [S ''Running inference...'']) (\<lambda>_.
      and_then (engine Infer (infer w 0 input0 input1 input2)) (\<lambda>output.
      and_then (engine (GetOutputTensor 0) (get_output_tensor w 0)) (\<lambda>_.
      and_then (cout [S ''Verifying results...'']) (\<lambda>_.
      and_then (defined (verify output input0 input1 input2)) (\<lambda>(max_diff, success, lines).
      (lines @ [verdict max_diff success], Ok ())))))))"

text \<open>Sequencing into the part that may not return.\<close>

definition and_then_opt :: "'a step \<Rightarrow> ('a \<Rightarrow> 'b step option) \<Rightarrow> 'b step option" where
  "and_then_opt m f =
     (case m of
        (tr, Ok a) \<Rightarrow> (case f a of None \<Rightarrow> None | Some (tr', r) \<Rightarrow> Some (tr @ tr', r))
      | (tr, Throw e) \<Rightarrow> Some (tr, Throw e)
      | (tr, Undefined) \<Rightarrow> Some (tr, Undefined))"

text \<open>Lines 72-162: everything after the device check.\<close>

definition run_model :: "'g world \<Rightarrow> unit step option" where
  "run_model w =
     and_then_opt (prepare w) (\<lambda>ins.
     and_then_opt (run_and_verify w ins) (\<lambda>_. stress_test w ins))"

text \<open>Lines 48-70: the core, the extension and the device check.\<close>

definition startup :: "'g world \<Rightarrow> unit step" where
  "startup w =
     and_then (engine CreateCore (create_core w)) (\<lambda>_.
     and_then (engine AddExtension (add_extension w)) (\<lambda>_.
     and_then (cout [S ''Registered CustomAddMul extension.'']) (\<lambda>_.
     and_then (engine GetAvailableDevices (get_available_devices w)) (\<lambda>devices.
     (gpu_warning devices, Ok ())))))"

text \<open>The body of the \<^verbatim>\<open>try\<close> block.\<close>

definition main_body :: "'g world \<Rightarrow> unit step option" where
  "main_body w = and_then_opt (startup w) (\<lambda>_. run_model w)"

text \<open>
  The process: its effects and its exit status; \<open>None\<close> when it never exits. Undefined
  behaviour in the body leaves the status undefined.
\<close>

definition main :: "'g world \<Rightarrow> (event list \<times> int res) option" where
  "main w =
     (case main_body w of
        None \<Rightarrow> None
      | Some (tr, Ok _) \<Rightarrow> Some (tr, Ok 0)
      | Some (tr, Throw e) \<Rightarrow> Some (tr @ [Err [S ''Exception: '', S e]], Ok 1)
      | Some (tr, Undefined) \<Rightarrow> Some (tr, Undefined))"

declare stress_loop.simps [code]

section \<open>Notions used to state the properties\<close>

text \<open>
  The expressions of the verification loop at index \<open>i\<close> (lines 129-131): the reference value
  \<^verbatim>\<open>expected\<close>, the deviation \<^verbatim>\<open>diff\<close>, and the test \<^verbatim>\<open>diff > 1e-3\<close>.
\<close>

definition expected_at :: "f32 list \<Rightarrow> f32 list \<Rightarrow> f32 list \<Rightarrow> nat \<Rightarrow> f32" where
  "expected_at in0_data in1_data in2_data i = fmul (fadd (in0_data ! i) (in1_data ! i)) (in2_data ! i)"

definition diff_at :: "f32 list \<Rightarrow> f32 list \<Rightarrow> f32 list \<Rightarrow> f32 list \<Rightarrow> nat \<Rightarrow> f32" where
  "diff_at out_data in0_data in1_data in2_data i =
     fabs (fsub (out_data ! i) (expected_at in0_data in1_data in2_data i))"

definition violates :: "f32 list \<Rightarrow> f32 list \<Rightarrow> f32 list \<Rightarrow> f32 list \<Rightarrow> nat \<Rightarrow> bool" where
  "violates out_data in0_data in1_data in2_data i =
     gt_double (diff_at out_data in0_data in1_data in2_data i) tolerance"

text \<open>
  One iteration of the verification loop on in-range indices, as a step on its state.
\<close>

definition verify_step ::
  "f32 list \<Rightarrow> f32 list \<Rightarrow> f32 list \<Rightarrow> f32 list \<Rightarrow> nat \<Rightarrow> f32 \<times> bool \<times> event list
     \<Rightarrow> f32 \<times> bool \<times> event list" where
  "verify_step y a b c i st =
     (case st of (m, s, tr) \<Rightarrow>
        if violates y a b c i
        then (fmax m (diff_at y a b c i), False,
              if i < 5 then tr @ [mismatch_line i (y ! i) (expected_at a b c i)] else tr)
        else (m, s, tr))"

text \<open>
  The first \<open>n\<close> values that successive draws produce from a generator state.
\<close>

primrec draws :: "('g \<Rightarrow> f32 \<times> 'g) \<Rightarrow> 'g \<Rightarrow> nat \<Rightarrow> f32 list" where
  "draws dis gen 0 = []"
| "draws dis gen (Suc n) = (case dis gen of (v, gen') \<Rightarrow> v # draws dis gen' n)"

text \<open>
  The half-open unit interval as the program's comparisons see it: \<^verbatim>\<open>0.0f <= v && v < 1.0f\<close>.
\<close>

definition in_unit_interval :: "f32 \<Rightarrow> bool" where
  "in_unit_interval v = (fle (Fin 0) v \<and> flt v (Fin 1))"

text \<open>
  The seconds elapsed at the \<open>k\<close>-th check of the stress loop (line 155).
\<close>

definition elapsed_at :: "'g world \<Rightarrow> nat \<Rightarrow> rat" where
  "elapsed_at w k = clock_now w k - clock_now w 0"

text \<open>
  The effects of iteration \<open>k\<close> of a stress loop that ends at iteration \<open>n\<close>: the inference, the
  clock reading, and the progress line when the loop goes on and \<open>k\<close> is a multiple of ten.
\<close>

definition iteration_events :: "'g world \<Rightarrow> nat \<Rightarrow> nat \<Rightarrow> event list" where
  "iteration_events w n k =
     [Call Infer, Call ClockNow] @
     (if k < n \<and> k mod 10 = 0 then [progress_line (int k) (elapsed_at w k)] else [])"

text \<open>
  The events that are printed lines.
\<close>

fun is_output :: "event \<Rightarrow> bool" where
  "is_output (Out l) = True"
| "is_output (Err l) = True"
| "is_output (Call c) = False"

text \<open>
  A piece of the program that, when it ends by an exception, ends right after an engine
  call.
\<close>

definition throws_at_call :: "'a step \<Rightarrow> bool" where
  "throws_at_call m = (\<forall>tr e. m = (tr, Throw e) \<longrightarrow> (\<exists>tr' c. tr = tr' @ [Call c]))"

text \<open>
  The engine and clock calls among the events of a run, in order.
\<close>

fun calls :: "event list \<Rightarrow> call list" where
  "calls [] = []"
| "calls (Call c # tr) = c # calls tr"
| "calls (Out l # tr) = calls tr"
| "calls (Err l # tr) = calls tr"

text \<open>
  One pass through the calls of the procedure, in the order of the source: the set-up, the
  verified inference, and \<open>n\<close> further iterations of the stress loop after its first reading
  of the clock.
\<close>

definition single_pass :: "'g world \<Rightarrow> nat \<Rightarrow> call list" where
  "single_pass w n =
     [CreateCore, AddExtension, GetAvailableDevices, ReadModel ''model.xml'',
      CompileModel ''GPU'' (config_map w ''custom_add_mul.xml''), CreateInferRequest,
      GetInputTensor 0, GetInputTensor 1, GetInputTensor 2, Infer, GetOutputTensor 0, ClockNow] @
     concat (replicate n [Infer, ClockNow])"

text \<open>
  A piece of the program whose calls are the given ones when it ends normally, and an
  initial part of them otherwise.
\<close>

definition calls_within :: "call list \<Rightarrow> 'a step \<Rightarrow> bool" where
  "calls_within cs m = (case m of (tr, Ok a) \<Rightarrow> calls tr = cs | (tr, r) \<Rightarrow> prefix (calls tr) cs)"

section \<open>A sample world\<close>

text \<open>
  A concrete world on which the model runs: every engine call succeeds, the devices are a CPU
  and a GPU, every input tensor has shape \<open>1\<times>1\<times>2\<times>2\<close>, the kernel computes
  \<open>(in0 + in1) * in2\<close> in single precision, each stress iteration takes three seconds, and the
  generator walks through the quarters \<open>0, 1/4, 1/2, 3/4\<close>. The runs below vary it field by field.
\<close>

definition sample_std :: "nat stdlib" where
  "sample_std = \<lparr>mt19937 = (\<lambda>seed. seed),
                  uniform_real = (\<lambda>g. (Fin (of_nat (g mod 4) / 4), Suc g))\<rparr>"

definition add_mul_kernel :: "tensor \<Rightarrow> tensor \<Rightarrow> tensor \<Rightarrow> tensor" where
  "add_mul_kernel a b c =
     \<lparr>shape = shape a,
      data = map (\<lambda>(x, y, z). fmul (fadd x y) z) (zip (data a) (zip (data b) (data c)))\<rparr>"

definition sample_world :: "nat world" where
  "sample_world =
     \<lparr>create_core = Inr (),
      add_extension = Inr (),
      get_available_devices = Inr [''CPU'', ''GPU''],
      read_model = (\<lambda>_. Inr ()),
      compile_model = (\<lambda>_ _. Inr ()),
      create_infer_request = Inr (),
      get_input_tensor = (\<lambda>_. Inr \<lparr>shape = [1, 1, 2, 2], data = replicate 4 (Fin 0)\<rparr>),
      infer = (\<lambda>k a b c. Inr (add_mul_kernel a b c)),
      get_output_tensor = (\<lambda>_. Inr ()),
      clock_now = (\<lambda>k. of_nat k * 3),
      inference_precision_name = ''INFERENCE_PRECISION_HINT'',
      std = sample_std\<rparr>"

text \<open>
  A tensor of shape \<open>1\<times>1\<times>1\<times>n\<close> holding the given \<open>n\<close> values.
\<close>

definition row :: "f32 list \<Rightarrow> tensor" where
  "row xs = \<lparr>shape = [1, 1, 1, length xs], data = xs\<rparr>"

section \<open>Facts about the model\<close>

declare fill_loop.simps [simp del]
declare verify_loop.simps [simp del]

text \<open>
  The exponent function brackets its argument, the rounding is within half a quantum of its
  argument, and it gives the binary32 values
  one expects: the nearest value, the even one at a tie, zero at half the least subnormal,
  and an infinity from half a unit above the largest finite value.
\<close>

lemma pow2_nonneg: "0 \<le> e \<Longrightarrow> pow2 e = 2 ^ nat e"
  by (simp add: pow2_def)

lemma pow2_neg: "0 \<le> k \<Longrightarrow> pow2 (- k) = 1 / 2 ^ nat k"
  by (cases "k = 0") (simp_all add: pow2_def)

lemma ilog2_bounds:
  assumes "0 < a"
  shows "pow2 (ilog2 a) \<le> a \<and> a < pow2 (ilog2 a + 1)"
proof (cases "1 \<le> a")
  case True
  let ?f = "\<lfloor>a\<rfloor>"
  have f: "0 < ?f" using True by simp
  have b1: "1 \<le> bitlen ?f" using f by (auto simp: bitlen_alt_def)
  from bitlen_bounds[OF f] have lo: "2 ^ nat (bitlen ?f - 1) \<le> ?f" and hi: "?f < 2 ^ nat (bitlen ?f)"
    by simp_all
  have "(2 :: rat) ^ nat (bitlen ?f - 1) = of_int (2 ^ nat (bitlen ?f - 1))" by simp
  also have "\<dots> \<le> of_int ?f" using lo by (simp only: of_int_le_iff)
  also have "\<dots> \<le> a" by simp
  finally have 1: "pow2 (bitlen ?f - 1) \<le> a" using b1 by (simp add: pow2_nonneg)
  have "?f + 1 \<le> 2 ^ nat (bitlen ?f)" using hi by simp
  then have "(of_int (?f + 1) :: rat) \<le> of_int (2 ^ nat (bitlen ?f))" by (simp only: of_int_le_iff)
  moreover have "a < of_int (?f + 1)" by linarith
  ultimately have "a < 2 ^ nat (bitlen ?f)" by simp
  then have 2: "a < pow2 (bitlen ?f - 1 + 1)" using b1 by (simp add: pow2_nonneg)
  show ?thesis using True 1 2 by (simp add: ilog2_def)
next
  case False
  then have a1: "a < 1" by simp
  let ?c = "\<lceil>1 / a\<rceil>"
  have inv: "1 < 1 / a" using assms a1 by simp
  then have c2: "2 \<le> ?c" by linarith
  then have c1: "0 < ?c - 1" by simp
  let ?k = "bitlen (?c - 1)"
  have k1: "1 \<le> ?k" using c1 by (auto simp: bitlen_alt_def)
  from bitlen_bounds[OF c1] have lo: "2 ^ nat (?k - 1) \<le> ?c - 1" and hi: "?c - 1 < 2 ^ nat ?k"
    by simp_all
  have "1 / a \<le> of_int ?c" by simp
  also have "?c \<le> 2 ^ nat ?k" using hi by simp
  then have "(of_int ?c :: rat) \<le> of_int (2 ^ nat ?k)" by (simp only: of_int_le_iff)
  finally have "1 / a \<le> 2 ^ nat ?k" by simp
  then have "1 \<le> 2 ^ nat ?k * a" using assms by (simp add: field_simps)
  then have 1: "pow2 (- ?k) \<le> a" using k1 by (simp add: pow2_neg field_simps)
  have "(of_int (2 ^ nat (?k - 1)) :: rat) \<le> of_int (?c - 1)" using lo by (simp only: of_int_le_iff)
  moreover have "of_int (?c - 1) < 1 / a" by linarith
  ultimately have "2 ^ nat (?k - 1) < 1 / a" by simp
  then have "2 ^ nat (?k - 1) * a < 1" using assms by (simp add: field_simps)
  then have "a < 1 / 2 ^ nat (?k - 1)" by (simp add: field_simps)
  moreover have "pow2 (- ?k + 1) = 1 / 2 ^ nat (?k - 1)"
    using pow2_neg[of "?k - 1"] k1 by simp
  ultimately have 2: "a < pow2 (- ?k + 1)" by simp
  show ?thesis using False 1 2 by (simp add: ilog2_def)
qed

lemma pow2_pos: "0 < pow2 e"
  by (simp add: pow2_def)

lemma round_even_error: "\<bar>of_int (round_even x) - x\<bar> \<le> 1 / 2"
proof -
  define f where "f = \<lfloor>x\<rfloor>"
  have lo: "of_int f \<le> x" and hi: "x < of_int f + 1"
    unfolding f_def by linarith+
  have "round_even x = f \<and> x - of_int f \<le> 1 / 2 \<or> round_even x = f + 1 \<and> 1 / 2 \<le> x - of_int f"
    unfolding round_even_def Let_def f_def[symmetric] by auto
  then show ?thesis
  proof
    assume "round_even x = f \<and> x - of_int f \<le> 1 / 2"
    then show ?thesis using lo by (simp add: abs_if)
  next
    assume "round_even x = f + 1 \<and> 1 / 2 \<le> x - of_int f"
    then show ?thesis using hi by (simp add: abs_if)
  qed
qed

lemma round_nearest_even_error:
  assumes "r \<noteq> 0"
  shows "\<bar>round_nearest_even p qmin r - r\<bar> \<le> pow2 (max (ilog2 \<bar>r\<bar> - (p - 1)) qmin) / 2"
proof -
  let ?q = "max (ilog2 \<bar>r\<bar> - (p - 1)) qmin"
  let ?n = "round_even (\<bar>r\<bar> / pow2 ?q)"
  have q: "0 < pow2 ?q" by (rule pow2_pos)
  have "round_nearest_even p qmin r - r = sgn r * (of_int ?n * pow2 ?q - \<bar>r\<bar>)"
    using assms by (simp add: round_nearest_even_def Let_def algebra_simps sgn_if abs_if)
  then have "\<bar>round_nearest_even p qmin r - r\<bar> = \<bar>of_int ?n * pow2 ?q - \<bar>r\<bar>\<bar>"
    using assms by (simp add: abs_mult abs_sgn_eq)
  also have "of_int ?n * pow2 ?q - \<bar>r\<bar> = (of_int ?n - \<bar>r\<bar> / pow2 ?q) * pow2 ?q"
    using q by (simp add: field_simps)
  also have "\<bar>\<dots>\<bar> = \<bar>of_int ?n - \<bar>r\<bar> / pow2 ?q\<bar> * pow2 ?q"
    using q by (simp add: abs_mult)
  also have "\<dots> \<le> (1 / 2) * pow2 ?q"
    using round_even_error[of "\<bar>r\<bar> / pow2 ?q"] q by (intro mult_right_mono) simp_all
  finally show ?thesis by simp
qed

lemma round_f32_samples:
  "round_f32 (1 / 3) = Fin (11184811 / 2 ^ 25)"
  "round_f32 (1 / 1000) = Fin (8589935 / 2 ^ 33)"
  "round_f32 (1 + 1 / 2 ^ 24) = Fin 1"
  "round_f32 (1 + 3 / 2 ^ 24) = Fin (1 + 1 / 2 ^ 22)"
  "round_f32 (1 / 2 ^ 150) = Fin 0"
  "round_f32 (3 / 2 ^ 150) = Fin (1 / 2 ^ 148)"
  "round_f32 (2 ^ 128 - 2 ^ 104) = Fin (2 ^ 128 - 2 ^ 104)"
  "round_f32 (2 ^ 128 - 2 ^ 103) = PInf"
  "round_f32 (- (2 ^ 128)) = NInf"
  by code_simp+

lemma tolerance_eq: "tolerance = 1152921504606847 / 2 ^ 60"
  by code_simp

lemma round_f32_0: "round_f32 0 = Fin 0"
  by (simp add: round_f32_def round_nearest_even_def)

lemma round_f32_1: "round_f32 1 = Fin 1"
  by code_simp

lemma round_f32_3: "round_f32 3 = Fin 3"
  by code_simp

lemma round_f32_5: "round_f32 5 = Fin 5"
  by code_simp

subsection \<open>The verification loop\<close>

lemma verify_loop_step:
  assumes "i < sz" "i < length a" "i < length b" "i < length c" "i < length y"
  shows "verify_loop y a b c sz i st = verify_loop y a b c sz (Suc i) (verify_step y a b c i st)"
proof (cases st)
  case (fields m s tr)
  show ?thesis
    unfolding fields using assms
    by (subst verify_loop.simps)
       (simp add: rd_def verify_step_def violates_def diff_at_def expected_at_def Let_def)
qed

lemma verify_loop_done: "\<not> i < sz \<Longrightarrow> verify_loop y a b c sz i st = Some st"
  by (cases st) (simp add: verify_loop.simps)

lemma verify_loop_fold:
  "sz \<le> length a \<Longrightarrow> sz \<le> length b \<Longrightarrow> sz \<le> length c \<Longrightarrow> sz \<le> length y \<Longrightarrow>
   verify_loop y a b c sz i st = Some (fold (verify_step y a b c) [i..<sz] st)"
proof (induction "sz - i" arbitrary: i st)
  case 0
  then show ?case by (simp add: verify_loop_done)
next
  case (Suc n)
  then have lt: "i < sz" and n: "n = sz - Suc i" by simp_all
  have "verify_loop y a b c sz i st = verify_loop y a b c sz (Suc i) (verify_step y a b c i st)"
    using lt Suc.prems by (intro verify_loop_step) simp_all
  also have "\<dots> = Some (fold (verify_step y a b c) [Suc i..<sz] (verify_step y a b c i st))"
    using Suc.hyps(1)[OF n] Suc.prems by simp
  finally show ?case using lt by (simp add: upt_conv_Cons)
qed

lemma fold_verify_flag:
  "fst (snd (fold (verify_step y a b c) xs (m, s, tr))) = (s \<and> (\<forall>j \<in> set xs. \<not> violates y a b c j))"
  by (induction xs arbitrary: m s tr) (auto simp add: verify_step_def)


lemma fold_verify_max:
  "fst (fold (verify_step y a b c) xs (m, s, tr)) =
     fold (\<lambda>i m. fmax m (diff_at y a b c i)) (filter (violates y a b c) xs) m"
  by (induction xs arbitrary: m s tr) (auto simp add: verify_step_def)


lemma fmax_cases: "a \<noteq> NaN \<Longrightarrow> b \<noteq> NaN \<Longrightarrow>
   fmax a b \<noteq> NaN \<and> fle a (fmax a b) \<and> fle b (fmax a b) \<and> (fmax a b = a \<or> fmax a b = b)"
  by (cases a; cases b) (auto simp add: fmax_def)

lemma fle_trans: "fle a b \<Longrightarrow> fle b c \<Longrightarrow> fle a c"
  by (cases a; cases b; cases c) auto

lemma fle_across_tolerance: "le_double a c \<Longrightarrow> gt_double b c \<Longrightarrow> fle a b"
  by (cases a; cases b) auto

lemma gt_le_double: "d \<noteq> NaN \<Longrightarrow> gt_double d c = (\<not> le_double d c)"
  by (cases d) auto


lemma fold_fmax:
  assumes "m0 \<noteq> NaN" and "\<forall>i \<in> set xs. d i \<noteq> NaN"
  shows "fold (\<lambda>i m. fmax m (d i)) xs m0 \<noteq> NaN \<and>
         fle m0 (fold (\<lambda>i m. fmax m (d i)) xs m0) \<and>
         (\<forall>i \<in> set xs. fle (d i) (fold (\<lambda>i m. fmax m (d i)) xs m0)) \<and>
         (fold (\<lambda>i m. fmax m (d i)) xs m0 = m0 \<or>
          (\<exists>i \<in> set xs. fold (\<lambda>i m. fmax m (d i)) xs m0 = d i))"
  using assms
proof (induction xs arbitrary: m0)
  case Nil
  then show ?case by (cases m0) simp_all
next
  case (Cons x xs)
  let ?m1 = "fmax m0 (d x)"
  let ?r = "fold (\<lambda>i m. fmax m (d i)) xs ?m1"
  have dx: "d x \<noteq> NaN" using Cons.prems by simp
  note s = fmax_cases[OF Cons.prems(1) dx]
  have ih: "?r \<noteq> NaN \<and> fle ?m1 ?r \<and> (\<forall>i \<in> set xs. fle (d i) ?r) \<and>
            (?r = ?m1 \<or> (\<exists>i \<in> set xs. ?r = d i))"
    using Cons.IH[of ?m1] s Cons.prems by simp
  have "fle m0 ?r" using s ih fle_trans by blast
  moreover have "fle (d x) ?r" using s ih fle_trans by blast
  moreover have "?r = m0 \<or> (\<exists>i \<in> set (x # xs). ?r = d i)"
    using s ih by auto
  ultimately show ?case using ih by simp
qed

subsection \<open>The fill loop\<close>

lemma fill_loop_done: "\<not> i < sz \<Longrightarrow> fill_loop dis sz i gen buf = Some buf"
  by (simp add: fill_loop.simps)

lemma fill_loop_step:
  "i < sz \<Longrightarrow> i < length buf \<Longrightarrow>
   fill_loop dis sz i gen buf =
     fill_loop dis sz (Suc i) (snd (dis gen)) (buf[i := fst (dis gen)])"
  by (subst fill_loop.simps) (simp add: case_prod_beta)

lemma fill_loop_oob: "i < sz \<Longrightarrow> \<not> i < length buf \<Longrightarrow> fill_loop dis sz i gen buf = None"
  by (subst fill_loop.simps) simp

lemma fill_loop_writes:
  "i \<le> sz \<Longrightarrow> sz \<le> length buf \<Longrightarrow>
   fill_loop dis sz i gen buf = Some (take i buf @ draws dis gen (sz - i) @ drop sz buf)"
proof (induction "sz - i" arbitrary: i gen buf)
  case 0
  then show ?case by (simp add: fill_loop_done)
next
  case (Suc n)
  then have lt: "i < sz" and n: "n = sz - Suc i" and d: "sz - i = Suc (sz - Suc i)" by simp_all
  have len: "i < length buf" using lt Suc.prems by simp
  have "fill_loop dis sz i gen buf =
     fill_loop dis sz (Suc i) (snd (dis gen)) (buf[i := fst (dis gen)])"
    using lt len by (rule fill_loop_step)
  also have "\<dots> = Some (take (Suc i) (buf[i := fst (dis gen)]) @
                 draws dis (snd (dis gen)) (sz - Suc i) @ drop sz (buf[i := fst (dis gen)]))"
    using Suc.hyps(1)[OF n] lt Suc.prems by simp
  also have "take (Suc i) (buf[i := fst (dis gen)]) = take i buf @ [fst (dis gen)]"
    using len by (simp add: take_Suc_conv_app_nth)
  also have "drop sz (buf[i := fst (dis gen)]) = drop sz buf"
    using lt by simp
  finally show ?case by (simp add: d case_prod_beta)
qed

lemma fill_loop_overrun:
  "i < sz \<Longrightarrow> length buf < sz \<Longrightarrow> fill_loop dis sz i gen buf = None"
proof (induction "sz - i" arbitrary: i gen buf)
  case 0
  then show ?case by simp
next
  case (Suc n)
  show ?case
  proof (cases "i < length buf")
    case False
    with Suc.prems show ?thesis by (simp add: fill_loop_oob)
  next
    case True
    then have "Suc i < sz" using Suc.prems by simp
    moreover have "n = sz - Suc i" using Suc.hyps(2) by simp
    ultimately have "fill_loop dis sz (Suc i) (snd (dis gen)) (buf[i := fst (dis gen)]) = None"
      using Suc.hyps(1)[of "Suc i"] Suc.prems by simp
    then show ?thesis using True Suc.prems by (simp add: fill_loop_step)
  qed
qed

lemma length_draws: "length (draws dis gen n) = n"
  by (induction n arbitrary: gen) (simp_all add: case_prod_beta)

lemma draws_nth_prefix:
  "i < n \<Longrightarrow> i < m \<Longrightarrow> draws dis gen n ! i = draws dis gen m ! i"
proof (induction n arbitrary: gen m i)
  case 0
  then show ?case by simp
next
  case (Suc n)
  then obtain m' where m: "m = Suc m'" by (cases m) simp_all
  show ?case
  proof (cases i)
    case 0
    then show ?thesis by (simp add: m case_prod_beta)
  next
    case (Suc j)
    with Suc.prems m have "j < n" "j < m'" by simp_all
    then show ?thesis using Suc.IH[of j m'] by (simp add: m Suc case_prod_beta)
  qed
qed

lemma draws_in_range:
  "(\<And>g. P (fst (dis g))) \<Longrightarrow> v \<in> set (draws dis gen n) \<Longrightarrow> P v"
  by (induction n arbitrary: gen) (auto simp add: case_prod_beta)

lemma fill_tensor_Some:
  "fill_tensor lib t = Some t' \<longleftrightarrow>
     get_size t \<le> length (data t) \<and>
     t' = t\<lparr>data := draws (uniform_real lib) (mt19937 lib 42) (get_size t) @ drop (get_size t) (data t)\<rparr>"
proof (cases "get_size t \<le> length (data t)")
  case True
  then show ?thesis
    using fill_loop_writes[of 0 "get_size t" "data t" "uniform_real lib" "mt19937 lib 42"]
    by (auto simp add: fill_tensor_def)
next
  case False
  then have "fill_loop (uniform_real lib) (get_size t) 0 (mt19937 lib 42) (data t) = None"
    by (intro fill_loop_overrun) simp_all
  then show ?thesis using False by (simp add: fill_tensor_def)
qed

lemma fadd_self: "fadd x x = fmul (Fin 2) x"
  by (cases x) simp_all

subsection \<open>Sequencing\<close>

lemma and_then_cout: "and_then (cout l) f = apfst ((#) (Out l)) (f ())"
  by (simp add: and_then_def cout_def split: prod.splits)

lemma and_then_cerr: "and_then (cerr l) f = apfst ((#) (Err l)) (f ())"
  by (simp add: and_then_def cerr_def split: prod.splits)

lemma and_then_engine_Inr:
  "and_then (engine c (Inr a)) f = apfst ((#) (Call c)) (f a)"
  by (simp add: and_then_def engine_def split: prod.splits)

lemma and_then_engine_Inl: "and_then (engine c (Inl e)) f = ([Call c], Throw e)"
  by (simp add: and_then_def engine_def)

lemma and_then_defined_Some: "and_then (defined (Some a)) f = f a"
  by (simp add: and_then_def defined_def split: prod.splits)

lemma and_then_defined_None: "and_then (defined None) f = ([], Undefined)"
  by (simp add: and_then_def defined_def)

lemmas and_then_simps =
  and_then_cout and_then_cerr and_then_engine_Inr and_then_engine_Inl and_then_defined_Some
  and_then_defined_None

lemma str_find_None: "(str_find s pat = None) = (\<not> sublist pat s)"
  by (induction s) (auto simp add: sublist_Cons_right)

lemma gpu_found_iff: "gpu_found devices = (\<exists>d \<in> set devices. sublist ''GPU'' d)"
  by (induction devices) (simp_all add: str_find_None del: str_find.simps)

lemma shape_at_in_bounds: "(shape_at s 2 \<noteq> None \<and> shape_at s 3 \<noteq> None) = (4 \<le> length s)"
  by (auto simp add: shape_at_def rd_def)

lemma startup_ok:
  assumes "create_core w = Inr ()" "add_extension w = Inr ()" "get_available_devices w = Inr devices"
  shows "startup w =
     ([Call CreateCore, Call AddExtension, Out [S ''Registered CustomAddMul extension.''],
       Call GetAvailableDevices] @ gpu_warning devices, Ok ())"
  using assms by (simp add: startup_def and_then_simps)

lemma rank_below_4_prepare:
  assumes "read_model w ''model.xml'' = Inr ()"
    and "compile_model w ''GPU'' (config_map w ''custom_add_mul.xml'') = Inr ()"
    and "create_infer_request w = Inr ()"
    and "get_input_tensor w 0 = Inr input0"
    and "get_input_tensor w 1 = Inr input1"
    and "get_input_tensor w 2 = Inr input2"
    and "length (shape input0) < 4"
  shows "snd (prepare w) = Undefined"
  using assms by (simp add: prepare_def shape_at_def rd_def Let_def and_then_simps)

lemma prepare_Ok:
  assumes "prepare w = (tr, Ok (input0, input1, input2))"
  shows "\<exists>t0 t1 t2. get_input_tensor w 0 = Inr t0 \<and> get_input_tensor w 1 = Inr t1 \<and>
           get_input_tensor w 2 = Inr t2 \<and> 4 \<le> length (shape t0) \<and>
           fill_tensor (std w) t0 = Some input0 \<and> fill_tensor (std w) t1 = Some input1 \<and>
           fill_tensor (std w) t2 = Some input2"
proof -
  from assms have r: "snd (prepare w) = Ok (input0, input1, input2)" by simp
  show ?thesis
  proof (cases "read_model w ''model.xml''")
    case Inl
    with r show ?thesis by (simp add: prepare_def Let_def and_then_simps)
  next
    case rm: (Inr u1)
    show ?thesis
    proof (cases "compile_model w ''GPU'' (config_map w ''custom_add_mul.xml'')")
      case Inl
      with r rm show ?thesis by (simp add: prepare_def Let_def and_then_simps)
    next
      case cm: (Inr u2)
      show ?thesis
      proof (cases "create_infer_request w")
        case Inl
        with r rm cm show ?thesis by (simp add: prepare_def Let_def and_then_simps)
      next
        case cr: (Inr u3)
        show ?thesis
        proof (cases "get_input_tensor w 0")
          case Inl
          with r rm cm cr show ?thesis by (simp add: prepare_def Let_def and_then_simps)
        next
          case g0: (Inr t0)
          show ?thesis
          proof (cases "get_input_tensor w 1")
            case Inl
            with r rm cm cr g0 show ?thesis by (simp add: prepare_def Let_def and_then_simps)
          next
            case g1: (Inr t1)
            show ?thesis
            proof (cases "get_input_tensor w 2")
              case Inl
              with r rm cm cr g0 g1 show ?thesis by (simp add: prepare_def Let_def and_then_simps)
            next
              case g2: (Inr t2)
              from r rm cm cr g0 g1 g2 show ?thesis
                by (cases "shape_at (shape t0) 2"; cases "shape_at (shape t0) 3";
                    cases "fill_tensor (std w) t0"; cases "fill_tensor (std w) t1";
                    cases "fill_tensor (std w) t2")
                   (simp_all add: prepare_def Let_def and_then_simps shape_at_def rd_def
                      split: if_splits)
            qed
          qed
        qed
      qed
    qed
  qed
qed

subsection \<open>The stress loop\<close>

lemma c_rem_nat: "(c_rem (int k) 10 = 0) = (k mod 10 = 0)"
proof -
  have "int k mod 10 = int (k mod 10)"
    by (simp add: zmod_int)
  then show ?thesis
    by (cases "k = 0") (simp_all add: c_rem_def)
qed

lemma stress_loop_last:
  assumes "infer w (Suc j) a b c = Inr out" "int j \<noteq> 2147483647"
    and "30 \<le> elapsed_at w (Suc j)"
  shows "stress_loop w (a, b, c) (clock_now w 0) (int j) tr =
           Some (tr @ [Call Infer, Call ClockNow], Ok (int (Suc j)))"
  using assms
  by (subst stress_loop.simps) (simp add: elapsed_at_def Let_def nat_add_distrib add.commute)

lemma stress_loop_next:
  assumes "infer w (Suc j) a b c = Inr out" "int j \<noteq> 2147483647"
    and "\<not> 30 \<le> elapsed_at w (Suc j)"
  shows "stress_loop w (a, b, c) (clock_now w 0) (int j) tr =
           stress_loop w (a, b, c) (clock_now w 0) (int (Suc j))
             (tr @ [Call Infer, Call ClockNow] @
              (if Suc j mod 10 = 0 then [progress_line (int (Suc j)) (elapsed_at w (Suc j))] else []))"
proof -
  have r: "(c_rem (int j + 1) 10 = 0) = (Suc j mod 10 = 0)"
       "(c_rem (1 + int j) 10 = 0) = (Suc j mod 10 = 0)"
    using c_rem_nat[of "Suc j"] by (simp_all add: add.commute)
  show ?thesis
    using assms
    by (subst stress_loop.simps)
       (simp add: elapsed_at_def Let_def nat_add_distrib add.commute r del: mod_Suc_eq)
qed

lemma stress_loop_run:
  assumes "\<forall>k. j < k \<and> k \<le> n \<longrightarrow> (\<exists>out. infer w k a b c = Inr out)"
    and "j < n" and "n \<le> 2147483647"
    and "\<forall>k. j < k \<and> k < n \<longrightarrow> elapsed_at w k < 30"
    and "30 \<le> elapsed_at w n"
  shows "stress_loop w (a, b, c) (clock_now w 0) (int j) tr =
           Some (tr @ concat (map (iteration_events w n) [Suc j..<Suc n]), Ok (int n))"
  using assms
proof (induction "n - j" arbitrary: j tr)
  case 0
  then show ?case by simp
next
  case (Suc d)
  from Suc.prems obtain out where out: "infer w (Suc j) a b c = Inr out"
    by (metis Suc_leI lessI)
  have ne: "int j \<noteq> 2147483647" using Suc.prems by simp
  show ?case
  proof (cases "Suc j = n")
    case True
    then show ?thesis
      using stress_loop_last[OF out ne, of tr] Suc.prems
      by (simp add: iteration_events_def)
  next
    case False
    then have lt: "Suc j < n" using Suc.prems by simp
    then have el: "\<not> 30 \<le> elapsed_at w (Suc j)" using Suc.prems by (simp add: not_le)
    have d: "d = n - Suc j" using Suc.hyps(2) by simp
    have upt: "[Suc j..<Suc n] = Suc j # [Suc (Suc j)..<Suc n]"
      using lt by (simp add: upt_conv_Cons)
    have "stress_loop w (a, b, c) (clock_now w 0) (int (Suc j))
             (tr @ [Call Infer, Call ClockNow] @
              (if Suc j mod 10 = 0 then [progress_line (int (Suc j)) (elapsed_at w (Suc j))] else []))
          = Some ((tr @ [Call Infer, Call ClockNow] @
              (if Suc j mod 10 = 0 then [progress_line (int (Suc j)) (elapsed_at w (Suc j))] else []))
              @ concat (map (iteration_events w n) [Suc (Suc j)..<Suc n]), Ok (int n))"
      using Suc.prems lt by (intro Suc.hyps(1)[OF d]) auto
    then show ?thesis
      using stress_loop_next[OF out ne el, of tr] lt
      by (simp add: upt iteration_events_def del: mod_Suc_eq upt_Suc)
  qed
qed

lemma stress_loop_Ok_inv:
  assumes "stress_loop w (a, b, c) (clock_now w 0) (int j) tr = Some (tr', Ok n')"
    and bound: "j \<le> 2147483647"
  shows "\<exists>n. n' = int n \<and> j < n \<and> n \<le> 2147483647 \<and>
             (\<forall>k. j < k \<and> k \<le> n \<longrightarrow> (\<exists>out. infer w k a b c = Inr out)) \<and>
             (\<forall>k. j < k \<and> k < n \<longrightarrow> elapsed_at w k < 30) \<and>
             30 \<le> elapsed_at w n"
proof -
  define P where "P = (\<lambda>(w :: 'a world) (ins :: tensor \<times> tensor \<times> tensor) (start :: rat)
      (it :: int) (tr :: event list) (y :: event list \<times> int res).
      \<forall>a b c j tr' n'. ins = (a, b, c) \<longrightarrow> start = clock_now w 0 \<longrightarrow> it = int j \<longrightarrow>
        j \<le> 2147483647 \<longrightarrow> y = (tr', Ok n') \<longrightarrow>
        (\<exists>n. n' = int n \<and> j < n \<and> n \<le> 2147483647 \<and>
             (\<forall>k. j < k \<and> k \<le> n \<longrightarrow> (\<exists>out. infer w k a b c = Inr out)) \<and>
             (\<forall>k. j < k \<and> k < n \<longrightarrow> elapsed_at w k < 30) \<and>
             30 \<le> elapsed_at w n))"
  have "P w (a, b, c) (clock_now w 0) (int j) tr (tr', Ok n')"
  proof (rule stress_loop.raw_induct[where P = P, OF _ assms(1)])
    fix f and w :: "'a world" and ins start it tr y
    assume IH: "\<And>w ins start it tr y. f w ins start it tr = Some y \<Longrightarrow> P w ins start it tr y"
    assume body: "(case ins of (input0, input1, input2) \<Rightarrow>
        (case infer w (nat it + 1) input0 input1 input2 of
           Inl e \<Rightarrow> Some (tr @ [Call Infer], Throw e)
         | Inr output \<Rightarrow>
             if it = 2147483647 then Some (tr @ [Call Infer], Undefined)
             else
               (let iterations' = it + 1;
                    now = clock_now w (nat iterations');
                    elapsed = now - start;
                    tr' = tr @ [Call Infer, Call ClockNow]
                in if 30 \<le> elapsed then Some (tr', Ok iterations')
                   else f w ins start iterations'
                          (if c_rem iterations' 10 = 0
                           then tr' @ [progress_line iterations' elapsed] else tr')))) = Some y"
    show "P w ins start it tr y"
      unfolding P_def
    proof (intro allI impI)
      fix a b c j tr' n'
      assume ins: "ins = (a, b, c)" and start: "start = clock_now w 0" and it: "it = int j"
        and jb: "j \<le> 2147483647" and y: "y = (tr', Ok n')"
      from body ins it y obtain out where out: "infer w (Suc j) a b c = Inr out"
        by (auto split: sum.splits)
      from body ins it y out have ne: "int j \<noteq> 2147483647"
        by (auto split: if_splits)
      with jb have sb: "Suc j \<le> 2147483647" by simp
      show "\<exists>n. n' = int n \<and> j < n \<and> n \<le> 2147483647 \<and>
             (\<forall>k. j < k \<and> k \<le> n \<longrightarrow> (\<exists>out. infer w k a b c = Inr out)) \<and>
             (\<forall>k. j < k \<and> k < n \<longrightarrow> elapsed_at w k < 30) \<and>
             30 \<le> elapsed_at w n"
      proof (cases "30 \<le> elapsed_at w (Suc j)")
        case True
        with body ins it y out ne start have "n' = int (Suc j)"
          by (simp add: elapsed_at_def Let_def nat_add_distrib add.commute)
        moreover have "\<forall>k. j < k \<and> k \<le> Suc j \<longrightarrow> (\<exists>out. infer w k a b c = Inr out)"
          using out by (metis Suc_leI le_antisym)
        ultimately show ?thesis using True sb by (intro exI[of _ "Suc j"]) auto
      next
        case False
        with body ins it y out ne start obtain tr2 where
          "f w (a, b, c) (clock_now w 0) (int (Suc j)) tr2 = Some (tr', Ok n')"
          by (simp add: elapsed_at_def Let_def nat_add_distrib add.commute split: if_splits)
        from IH[OF this] sb obtain n where n: "n' = int n" "Suc j < n" "n \<le> 2147483647"
          "\<forall>k. Suc j < k \<and> k \<le> n \<longrightarrow> (\<exists>out. infer w k a b c = Inr out)"
          "\<forall>k. Suc j < k \<and> k < n \<longrightarrow> elapsed_at w k < 30" "30 \<le> elapsed_at w n"
          unfolding P_def by blast
        have "\<forall>k. j < k \<and> k \<le> n \<longrightarrow> (\<exists>out. infer w k a b c = Inr out)"
          using n(4) out by (metis Suc_lessI)
        moreover have "\<forall>k. j < k \<and> k < n \<longrightarrow> elapsed_at w k < 30"
          using n(5) False by (metis Suc_lessI not_le)
        ultimately show ?thesis using n by (intro exI[of _ n]) auto
      qed
    qed
  qed
  then show ?thesis unfolding P_def using bound by blast
qed

lemma concat_map_if: "concat (map (\<lambda>x. if P x then [g x] else []) xs) = map g (filter P xs)"
  by (induction xs) simp_all

lemma outputs_of_iterations:
  assumes "j < n"
  shows "filter is_output (concat (map (iteration_events w n) [Suc j..<Suc n])) =
         map (\<lambda>k. progress_line (int k) (elapsed_at w k)) (filter (\<lambda>k. k mod 10 = 0) [Suc j..<n])"
proof -
  have "filter is_output (concat (map (iteration_events w n) [Suc j..<Suc n])) =
        concat (map (\<lambda>k. if k < n \<and> k mod 10 = 0
                           then [progress_line (int k) (elapsed_at w k)] else []) [Suc j..<Suc n])"
    by (simp add: filter_concat comp_def iteration_events_def progress_line_def
             del: upt_Suc cong: map_cong)
  also have "\<dots> = map (\<lambda>k. progress_line (int k) (elapsed_at w k))
                     (filter (\<lambda>k. k < n \<and> k mod 10 = 0) [Suc j..<Suc n])"
    by (rule concat_map_if)
  also have "filter (\<lambda>k. k < n \<and> k mod 10 = 0) [Suc j..<Suc n] =
             filter (\<lambda>k. k mod 10 = 0) [Suc j..<n]"
  proof -
    have "[Suc j..<Suc n] = [Suc j..<n] @ [n]" using assms by simp
    moreover have "filter (\<lambda>k. k < n \<and> k mod 10 = 0) [Suc j..<n] =
                   filter (\<lambda>k. k mod 10 = 0) [Suc j..<n]"
      by (rule filter_cong) simp_all
    ultimately show ?thesis by (simp del: upt_Suc)
  qed
  finally show ?thesis .
qed

lemma stress_test_run:
  assumes "\<forall>k. 0 < k \<and> k \<le> n \<longrightarrow> (\<exists>out. infer w k a b c = Inr out)"
    and "0 < n" and "n \<le> 2147483647"
    and "\<forall>k. 0 < k \<and> k < n \<longrightarrow> elapsed_at w k < 30"
    and "30 \<le> elapsed_at w n"
  shows "stress_test w (a, b, c) =
     Some ([Out [S (CHR 0x0A # ''Starting stress test for 30 seconds...'')], Call ClockNow] @
           concat (map (iteration_events w n) [Suc 0..<Suc n]) @
           [Out [S ''Stress test complete. Total iterations: '', I (int n)]], Ok ())"
  using stress_loop_run[OF assms, of "[Out [S (CHR 0x0A # ''Starting stress test for 30 seconds...'')], Call ClockNow]"]
  by (simp add: stress_test_def del: upt_Suc)

lemma stress_test_ends_at_first_mark:
  assumes returns: "\<forall>k. \<exists>out. infer w k input0 input1 input2 = Inr out"
    and reached: "1 \<le> m" "m \<le> 2147483647" "30 \<le> elapsed_at w m"
  shows "\<exists>n tr. stress_test w (input0, input1, input2) =
             Some (tr @ [Out [S ''Stress test complete. Total iterations: '', I (int n)]], Ok ()) \<and>
           1 \<le> n \<and> n \<le> m \<and>
           30 \<le> elapsed_at w n \<and>
           (\<forall>k. 1 \<le> k \<and> k < n \<longrightarrow> elapsed_at w k < 30) \<and>
           clock_now w n - (clock_now w 0 + 30) < clock_now w n - clock_now w (n - 1)"
proof -
  define n where "n = (LEAST k. 1 \<le> k \<and> 30 \<le> elapsed_at w k)"
  have n: "1 \<le> n \<and> 30 \<le> elapsed_at w n"
    unfolding n_def using reached(1,3) by (rule LeastI[of _ m, OF conjI])
  have nm: "n \<le> m"
    unfolding n_def using reached(1,3) by (intro Least_le) simp
  have before: "\<forall>k. 1 \<le> k \<and> k < n \<longrightarrow> elapsed_at w k < 30"
  proof (intro allI impI)
    fix k assume k: "1 \<le> k \<and> k < n"
    then have "\<not> (1 \<le> k \<and> 30 \<le> elapsed_at w k)"
      unfolding n_def using not_less_Least by blast
    with k show "elapsed_at w k < 30" by simp
  qed
  have run: "stress_test w (input0, input1, input2) =
     Some (([Out [S (CHR 0x0A # ''Starting stress test for 30 seconds...'')], Call ClockNow] @
           concat (map (iteration_events w n) [Suc 0..<Suc n])) @
           [Out [S ''Stress test complete. Total iterations: '', I (int n)]], Ok ())"
    using stress_test_run[of n w input0 input1 input2] returns n nm reached(2) before
    by (simp del: upt_Suc)
  have late: "clock_now w n - (clock_now w 0 + 30) < clock_now w n - clock_now w (n - 1)"
  proof (cases "n = 1")
    case True
    then show ?thesis by simp
  next
    case False
    with n have "1 \<le> n - 1 \<and> n - 1 < n" by arith
    with before have "elapsed_at w (n - 1) < 30" by blast
    then show ?thesis by (simp add: elapsed_at_def)
  qed
  show ?thesis
    using run n nm before late by blast
qed

lemma elapsed_at_least:
  assumes "\<forall>k. d \<le> clock_now w (Suc k) - clock_now w k"
  shows "of_nat m * d \<le> elapsed_at w m"
proof (induction m)
  case 0
  then show ?case by (simp add: elapsed_at_def)
next
  case (Suc m)
  have "of_nat (Suc m) * d = of_nat m * d + d" by (simp add: algebra_simps)
  also have "\<dots> \<le> elapsed_at w m + (clock_now w (Suc m) - clock_now w m)"
    using Suc.IH assms by (intro add_mono) simp_all
  also have "\<dots> = elapsed_at w (Suc m)" by (simp add: elapsed_at_def)
  finally show ?case .
qed

subsection \<open>Where exceptions come from\<close>

lemma throws_at_call_engine: "throws_at_call (engine c r)"
  by (auto simp add: throws_at_call_def engine_def split: sum.splits)

lemma throws_at_call_cout: "throws_at_call (cout l)"
  by (simp add: throws_at_call_def cout_def)

lemma throws_at_call_defined: "throws_at_call (defined x)"
  by (simp add: throws_at_call_def defined_def split: option.splits)

lemma throws_at_call_Ok: "throws_at_call (tr, Ok a)"
  by (simp add: throws_at_call_def)

lemma throws_at_call_and_then:
  assumes "throws_at_call m" and "\<And>a. throws_at_call (f a)"
  shows "throws_at_call (and_then m f)"
proof -
  obtain tr r where m: "m = (tr, r)" by (cases m)
  show ?thesis
  proof (cases r)
    case (Ok a)
    obtain tr2 r2 where fa: "f a = (tr2, r2)" by (cases "f a")
    have "\<And>e. r2 = Throw e \<Longrightarrow> \<exists>tr' c. tr2 = tr' @ [Call c]"
      using assms(2)[of a] fa by (simp add: throws_at_call_def)
    then show ?thesis
      by (auto simp add: throws_at_call_def and_then_def m Ok fa)
  next
    case (Throw e)
    then show ?thesis using assms(1) by (simp add: throws_at_call_def and_then_def m)
  next
    case Undefined
    then show ?thesis by (simp add: throws_at_call_def and_then_def m)
  qed
qed

lemmas throws_at_call_intros =
  throws_at_call_and_then throws_at_call_engine throws_at_call_cout throws_at_call_defined
  throws_at_call_Ok

lemma throws_at_call_startup: "throws_at_call (startup w)"
  unfolding startup_def by (intro throws_at_call_intros)

lemma throws_at_call_prepare: "throws_at_call (prepare w)"
  unfolding prepare_def Let_def by (intro throws_at_call_intros)

lemma throws_at_call_run_and_verify: "throws_at_call (run_and_verify w ins)"
proof -
  have "\<And>x. throws_at_call
      (case x of (max_diff, success, lines) \<Rightarrow> (lines @ [verdict max_diff success], Ok ()))"
    by (simp add: throws_at_call_def split: prod.splits)
  then show ?thesis
    unfolding run_and_verify_def
    by (cases ins) (simp only: prod.case, intro throws_at_call_intros)
qed

lemma stress_loop_Throw:
  assumes "stress_loop w ins start it tr = Some (tr', Throw e)"
  shows "\<exists>tr0. tr' = tr0 @ [Call Infer]"
proof -
  define P where "P = (\<lambda>(w :: 'a world) (ins :: tensor \<times> tensor \<times> tensor) (start :: rat)
      (it :: int) (tr :: event list) (y :: event list \<times> int res).
      \<forall>tr' e. y = (tr', Throw e) \<longrightarrow> (\<exists>tr0. tr' = tr0 @ [Call Infer]))"
  have "P w ins start it tr (tr', Throw e)"
  proof (rule stress_loop.raw_induct[where P = P, OF _ assms])
    fix f and w :: "'a world" and ins start it tr y
    assume IH: "\<And>w ins start it tr y. f w ins start it tr = Some y \<Longrightarrow> P w ins start it tr y"
    assume body: "(case ins of (input0, input1, input2) \<Rightarrow>
        (case infer w (nat it + 1) input0 input1 input2 of
           Inl e \<Rightarrow> Some (tr @ [Call Infer], Throw e)
         | Inr output \<Rightarrow>
             if it = 2147483647 then Some (tr @ [Call Infer], Undefined)
             else
               (let iterations' = it + 1;
                    now = clock_now w (nat iterations');
                    elapsed = now - start;
                    tr' = tr @ [Call Infer, Call ClockNow]
                in if 30 \<le> elapsed then Some (tr', Ok iterations')
                   else f w ins start iterations'
                          (if c_rem iterations' 10 = 0
                           then tr' @ [progress_line iterations' elapsed] else tr')))) = Some y"
    show "P w ins start it tr y"
      using body IH unfolding P_def
      by (auto simp add: Let_def split: prod.splits sum.splits if_splits)
  qed
  then show ?thesis unfolding P_def by blast
qed

lemma stress_test_Throw:
  assumes "stress_test w ins = Some (tr, Throw e)"
  shows "\<exists>tr'. tr = tr' @ [Call Infer]"
  using assms
  by (auto simp add: stress_test_def Let_def split: option.splits prod.splits res.splits
        dest: stress_loop_Throw)

lemma and_then_opt_Throw:
  assumes "and_then_opt m f = Some (tr, Throw e)"
    and "throws_at_call m"
    and "\<And>a tr2. f a = Some (tr2, Throw e) \<Longrightarrow> \<exists>tr' c. tr2 = tr' @ [Call c]"
  shows "\<exists>tr' c. tr = tr' @ [Call c]"
proof -
  obtain tr1 r where m: "m = (tr1, r)" by (cases m)
  show ?thesis
  proof (cases r)
    case (Ok a)
    with assms(1) m obtain tr2 where "f a = Some (tr2, Throw e)" "tr = tr1 @ tr2"
      by (auto simp add: and_then_opt_def split: option.splits)
    with assms(3)[of a tr2] show ?thesis by (metis append.assoc)
  next
    case (Throw e')
    with assms(1,2) m show ?thesis by (simp add: and_then_opt_def throws_at_call_def)
  next
    case Undefined
    with assms(1) m show ?thesis by (simp add: and_then_opt_def)
  qed
qed

lemma main_body_Throw:
  assumes "main_body w = Some (tr, Throw e)"
  shows "\<exists>tr' c. tr = tr' @ [Call c]"
proof (rule and_then_opt_Throw[OF assms[unfolded main_body_def] throws_at_call_startup])
  fix a tr2
  assume "run_model w = Some (tr2, Throw e)"
  then show "\<exists>tr' c. tr2 = tr' @ [Call c]"
    unfolding run_model_def
  proof (rule and_then_opt_Throw[OF _ throws_at_call_prepare])
    fix ins tr3
    assume "and_then_opt (run_and_verify w ins) (\<lambda>_. stress_test w ins) = Some (tr3, Throw e)"
    then show "\<exists>tr' c. tr3 = tr' @ [Call c]"
    proof (rule and_then_opt_Throw[OF _ throws_at_call_run_and_verify])
      fix u tr4
      assume "stress_test w ins = Some (tr4, Throw e)"
      then show "\<exists>tr' c. tr4 = tr' @ [Call c]"
        using stress_test_Throw by blast
    qed
  qed
qed

subsection \<open>The calls of a run\<close>

lemma calls_append: "calls (tr @ tr') = calls tr @ calls tr'"
  by (induction tr rule: calls.induct) simp_all

lemma calls_within_engine: "calls_within [c] (engine c r)"
  by (simp add: calls_within_def engine_def split: sum.splits)

lemma calls_within_cout: "calls_within [] (cout l)"
  by (simp add: calls_within_def cout_def)

lemma calls_within_defined: "calls_within [] (defined x)"
  by (simp add: calls_within_def defined_def split: option.splits)

lemma calls_within_and_then:
  assumes "calls_within cs m" and "\<And>a. calls_within cs' (f a)"
  shows "calls_within (cs @ cs') (and_then m f)"
proof -
  obtain tr r where m: "m = (tr, r)" by (cases m)
  show ?thesis
  proof (cases r)
    case (Ok a)
    obtain tr2 r2 where fa: "f a = (tr2, r2)" by (cases "f a")
    from assms(1) m Ok have 1: "calls tr = cs" by (simp add: calls_within_def)
    from assms(2)[of a] fa show ?thesis
      by (cases r2) (simp_all add: calls_within_def and_then_def m Ok calls_append 1)
  next
    case (Throw e)
    with assms(1) m show ?thesis by (simp add: calls_within_def and_then_def prefix_prefix)
  next
    case Undefined
    with assms(1) m show ?thesis by (simp add: calls_within_def and_then_def prefix_prefix)
  qed
qed

lemma calls_within_cout_then:
  assumes "calls_within cs (f ())"
  shows "calls_within cs (and_then (cout l) f)"
  using calls_within_and_then[OF calls_within_cout, of cs f l] assms by simp

lemma calls_within_defined_then:
  assumes "\<And>a. calls_within cs (f a)"
  shows "calls_within cs (and_then (defined x) f)"
  using calls_within_and_then[OF calls_within_defined, of cs f x] assms by simp

lemma calls_within_engine_then:
  assumes "\<And>a. calls_within cs (f a)"
  shows "calls_within (c # cs) (and_then (engine c r) f)"
  using calls_within_and_then[OF calls_within_engine, of cs f c r] assms by simp

lemma calls_gpu_warning: "calls (gpu_warning devices) = []"
  by (simp add: gpu_warning_def)

lemma calls_within_startup: "calls_within [CreateCore, AddExtension, GetAvailableDevices] (startup w)"
  unfolding startup_def
  by (intro calls_within_engine_then calls_within_cout_then)
     (simp add: calls_within_def calls_gpu_warning)

lemma calls_within_prepare:
  "calls_within [ReadModel ''model.xml'', CompileModel ''GPU'' (config_map w ''custom_add_mul.xml''),
     CreateInferRequest, GetInputTensor 0, GetInputTensor 1, GetInputTensor 2] (prepare w)"
  unfolding prepare_def Let_def
  by (intro calls_within_engine_then calls_within_cout_then calls_within_defined_then)
     (simp add: calls_within_def)

lemma calls_verify_step: "calls (snd (snd (verify_step y a b c i st))) = calls (snd (snd st))"
  by (cases st) (simp add: verify_step_def mismatch_line_def calls_append)

lemma verify_loop_oob:
  "i < sz \<Longrightarrow> \<not> (i < length a \<and> i < length b \<and> i < length c \<and> i < length y) \<Longrightarrow>
   verify_loop y a b c sz i st = None"
  by (cases st) (auto simp add: verify_loop.simps rd_def)

lemma calls_verify_loop:
  "verify_loop y a b c sz i st = Some st' \<Longrightarrow> calls (snd (snd st')) = calls (snd (snd st))"
proof (induction "sz - i" arbitrary: i st)
  case 0
  then show ?case by (simp add: verify_loop_done)
next
  case (Suc n)
  then have lt: "i < sz" and n: "n = sz - Suc i" by simp_all
  show ?case
  proof (cases "i < length a \<and> i < length b \<and> i < length c \<and> i < length y")
    case False
    with lt Suc.prems show ?thesis by (simp add: verify_loop_oob)
  next
    case True
    with lt Suc.prems have "verify_loop y a b c sz (Suc i) (verify_step y a b c i st) = Some st'"
      by (simp add: verify_loop_step)
    from Suc.hyps(1)[OF n this] show ?thesis by (simp add: calls_verify_step)
  qed
qed

lemma calls_within_run_and_verify: "calls_within [Infer, GetOutputTensor 0] (run_and_verify w ins)"
proof -
  obtain input0 input1 input2 where ins: "ins = (input0, input1, input2)" by (cases ins)
  have last: "calls_within []
      (and_then (defined (verify outp input0 input1 input2))
         (\<lambda>(max_diff, success, lines). (lines @ [verdict max_diff success], Ok ())))" for outp
  proof (cases "verify outp input0 input1 input2")
    case None
    then show ?thesis by (simp add: calls_within_def and_then_def defined_def)
  next
    case (Some st)
    obtain m s lines where st: "st = (m, s, lines)" by (cases st)
    from Some st have "calls lines = []"
      using calls_verify_loop[of "data outp" "data input0" "data input1" "data input2"
          "get_size outp" 0 "(Fin 0, True, [])" "(m, s, lines)"]
      by (simp add: verify_def)
    then show ?thesis
      by (simp add: calls_within_def and_then_def defined_def Some st calls_append verdict_def)
  qed
  show ?thesis
    unfolding run_and_verify_def ins prod.case
    by (intro calls_within_engine_then calls_within_cout_then last)
qed

lemma calls_stress_loop:
  assumes "stress_loop w ins start it tr = Some (tr', r)"
  shows "\<exists>n. calls tr' = calls tr @ concat (replicate n [Infer, ClockNow]) @
                 (case r of Ok k \<Rightarrow> [] | Throw e \<Rightarrow> [Infer] | Undefined \<Rightarrow> [Infer])"
proof -
  define P where "P = (\<lambda>(w :: 'a world) (ins :: tensor \<times> tensor \<times> tensor) (start :: rat)
      (it :: int) (tr :: event list) (y :: event list \<times> int res).
      \<exists>n. calls (fst y) = calls tr @ concat (replicate n [Infer, ClockNow]) @
                 (case snd y of Ok k \<Rightarrow> [] | Throw e \<Rightarrow> [Infer] | Undefined \<Rightarrow> [Infer]))"
  have "P w ins start it tr (tr', r)"
  proof (rule stress_loop.raw_induct[where P = P, OF _ assms])
    fix f and w :: "'a world" and ins start it tr y
    assume IH: "\<And>w ins start it tr y. f w ins start it tr = Some y \<Longrightarrow> P w ins start it tr y"
    assume body: "(case ins of (input0, input1, input2) \<Rightarrow>
        (case infer w (nat it + 1) input0 input1 input2 of
           Inl e \<Rightarrow> Some (tr @ [Call Infer], Throw e)
         | Inr output \<Rightarrow>
             if it = 2147483647 then Some (tr @ [Call Infer], Undefined)
             else
               (let iterations' = it + 1;
                    now = clock_now w (nat iterations');
                    elapsed = now - start;
                    tr' = tr @ [Call Infer, Call ClockNow]
                in if 30 \<le> elapsed then Some (tr', Ok iterations')
                   else f w ins start iterations'
                          (if c_rem iterations' 10 = 0
                           then tr' @ [progress_line iterations' elapsed] else tr')))) = Some y"
    obtain a b c where ins: "ins = (a, b, c)" by (cases ins)
    show "P w ins start it tr y"
    proof (cases "infer w (nat it + 1) a b c")
      case (Inl e)
      with body ins have "y = (tr @ [Call Infer], Throw e)" by simp
      then show ?thesis unfolding P_def by (intro exI[of _ 0]) (simp add: calls_append)
    next
      case (Inr out)
      show ?thesis
      proof (cases "it = 2147483647")
        case True
        with body ins Inr have "y = (tr @ [Call Infer], Undefined)" by simp
        then show ?thesis unfolding P_def by (intro exI[of _ 0]) (simp add: calls_append)
      next
        case False
        show ?thesis
        proof (cases "30 \<le> clock_now w (nat (it + 1)) - start")
          case True
          with body ins Inr False have "y = (tr @ [Call Infer, Call ClockNow], Ok (it + 1))"
            by (simp add: Let_def)
          then show ?thesis unfolding P_def by (intro exI[of _ 1]) (simp add: calls_append)
        next
          case late: False
          let ?tr' = "tr @ [Call Infer, Call ClockNow]"
          let ?tr'' = "if c_rem (it + 1) 10 = 0
             then ?tr' @ [progress_line (it + 1) (clock_now w (nat (it + 1)) - start)] else ?tr'"
          from body ins Inr False late have "f w ins start (it + 1) ?tr'' = Some y"
            by (simp add: Let_def)
          from IH[OF this] obtain n where
            "calls (fst y) = calls ?tr'' @ concat (replicate n [Infer, ClockNow]) @
                 (case snd y of Ok k \<Rightarrow> [] | Throw e \<Rightarrow> [Infer] | Undefined \<Rightarrow> [Infer])"
            unfolding P_def by blast
          moreover have "calls ?tr'' = calls tr @ [Infer, ClockNow]"
            by (simp add: calls_append progress_line_def)
          ultimately show ?thesis unfolding P_def by (intro exI[of _ "Suc n"]) simp
        qed
      qed
    qed
  qed
  then show ?thesis unfolding P_def by simp
qed

lemma calls_stress_test:
  assumes "stress_test w ins = Some (tr, r)"
  shows "\<exists>n. calls tr = ClockNow # concat (replicate n [Infer, ClockNow]) @
                 (case r of Ok u \<Rightarrow> [] | Throw e \<Rightarrow> [Infer] | Undefined \<Rightarrow> [Infer])"
proof -
  let ?tr0 = "[Out [S (CHR 0x0A # ''Starting stress test for 30 seconds...'')], Call ClockNow]"
  from assms obtain tr' r' where
    loop: "stress_loop w ins (clock_now w 0) 0 ?tr0 = Some (tr', r')"
    by (auto simp add: stress_test_def Let_def split: option.splits)
  from calls_stress_loop[OF loop] obtain n where
    n: "calls tr' = calls ?tr0 @ concat (replicate n [Infer, ClockNow]) @
                 (case r' of Ok k \<Rightarrow> [] | Throw e \<Rightarrow> [Infer] | Undefined \<Rightarrow> [Infer])"
    by blast
  show ?thesis
  proof (cases r')
    case (Ok k)
    with assms loop have "tr = tr' @ [Out [S ''Stress test complete. Total iterations: '', I k]]"
      "r = Ok ()"
      by (simp_all add: stress_test_def Let_def)
    with n Ok show ?thesis by (intro exI[of _ n]) (simp add: calls_append)
  next
    case (Throw e)
    with assms loop have "tr = tr'" "r = Throw e" by (simp_all add: stress_test_def Let_def)
    with n Throw show ?thesis by (intro exI[of _ n]) simp
  next
    case Undefined
    with assms loop have "tr = tr'" "r = Undefined" by (simp_all add: stress_test_def Let_def)
    with n Undefined show ?thesis by (intro exI[of _ n]) simp
  qed
qed

lemma prefix_replicate_pairs:
  "prefix (concat (replicate n [x, y]) @ [x]) (concat (replicate (Suc n) [x, y]))"
  by (induction n) simp_all

lemma calls_main_body:
  assumes "main_body w = Some (tr, r)"
  shows "\<exists>n. prefix (calls tr) (single_pass w n)"
proof -
  let ?L1 = "[CreateCore, AddExtension, GetAvailableDevices]"
  let ?L2 = "[ReadModel ''model.xml'', CompileModel ''GPU'' (config_map w ''custom_add_mul.xml''),
     CreateInferRequest, GetInputTensor 0, GetInputTensor 1, GetInputTensor 2]"
  let ?L3 = "[Infer, GetOutputTensor 0]"
  have sp: "single_pass w n = ?L1 @ ?L2 @ ?L3 @ ClockNow # concat (replicate n [Infer, ClockNow])" for n
    by (simp add: single_pass_def)
  obtain tr1 r1 where s1: "startup w = (tr1, r1)" by (cases "startup w")
  have c1: "calls_within ?L1 (tr1, r1)" using calls_within_startup[of w] s1 by simp
  have stop1: ?thesis if "r1 \<noteq> Ok ()"
  proof -
    from that assms s1 have "tr = tr1" by (cases r1) (simp_all add: main_body_def and_then_opt_def)
    moreover from that c1 have "prefix (calls tr1) ?L1" by (cases r1) (simp_all add: calls_within_def)
    then have "prefix (calls tr1) (?L1 @ ?L2 @ ?L3 @ [ClockNow])" by (rule prefix_prefix)
    ultimately have "prefix (calls tr) (single_pass w 0)" by (simp add: sp)
    then show ?thesis ..
  qed
  obtain tr2 r2 where s2: "prepare w = (tr2, r2)" by (cases "prepare w")
  have c2: "calls_within ?L2 (tr2, r2)" using calls_within_prepare[of w] s2 by simp
  have stop2: ?thesis if "r1 = Ok ()" and "\<forall>ins. r2 \<noteq> Ok ins"
  proof -
    from that assms s1 s2 have "tr = tr1 @ tr2"
      by (cases r2) (simp_all add: main_body_def run_model_def and_then_opt_def)
    moreover from that c1 have "calls tr1 = ?L1" by (simp add: calls_within_def)
    moreover from that c2 have "prefix (calls tr2) ?L2" by (cases r2) (simp_all add: calls_within_def)
    then have "prefix (calls tr2) (?L2 @ ?L3 @ [ClockNow])" by (rule prefix_prefix)
    ultimately have "prefix (calls tr) (single_pass w 0)" by (simp add: sp calls_append)
    then show ?thesis ..
  qed
  have go: ?thesis if r1: "r1 = Ok ()" and r2: "r2 = Ok ins" for ins
  proof -
    from r1 c1 have e1: "calls tr1 = ?L1" by (simp add: calls_within_def)
    from r2 c2 have e2: "calls tr2 = ?L2" by (simp add: calls_within_def)
    obtain tr3 r3 where s3: "run_and_verify w ins = (tr3, r3)" by (cases "run_and_verify w ins")
    have c3: "calls_within ?L3 (tr3, r3)" using calls_within_run_and_verify[of w ins] s3 by simp
    show ?thesis
    proof (cases "r3 = Ok ()")
      case False
      with assms s1 r1 s2 r2 s3 have "tr = tr1 @ tr2 @ tr3"
        by (cases r3) (simp_all add: main_body_def run_model_def and_then_opt_def)
      moreover from False c3 have "prefix (calls tr3) ?L3" by (cases r3) (simp_all add: calls_within_def)
      then have "prefix (calls tr3) (?L3 @ [ClockNow])" by (rule prefix_prefix)
      ultimately have "prefix (calls tr) (single_pass w 0)" by (simp add: sp calls_append e1 e2)
      then show ?thesis ..
    next
      case True
      with c3 have e3: "calls tr3 = ?L3" by (simp add: calls_within_def)
      from assms s1 r1 s2 r2 s3 True obtain tr4 where
        s4: "stress_test w ins = Some (tr4, r)" and tr: "tr = tr1 @ tr2 @ tr3 @ tr4"
        by (auto simp add: main_body_def run_model_def and_then_opt_def split: option.splits)
      from calls_stress_test[OF s4] obtain n where
        n: "calls tr4 = ClockNow # concat (replicate n [Infer, ClockNow]) @
               (case r of Ok u \<Rightarrow> [] | Throw e \<Rightarrow> [Infer] | Undefined \<Rightarrow> [Infer])"
        by blast
      have "prefix (concat (replicate n [Infer, ClockNow]) @
               (case r of Ok u \<Rightarrow> [] | Throw e \<Rightarrow> [Infer] | Undefined \<Rightarrow> [Infer]))
              (concat (replicate (Suc n) [Infer, ClockNow]))"
        using prefix_replicate_pairs[of n Infer ClockNow]
          append_prefixD[OF prefix_replicate_pairs[of n Infer ClockNow]]
        by (cases r) simp_all
      then have "prefix (calls tr) (single_pass w (Suc n))"
        by (simp add: sp tr calls_append e1 e2 e3 n)
      then show ?thesis ..
    qed
  qed
  show ?thesis
  proof (cases r1)
    case (Ok u)
    then have r1: "r1 = Ok ()" by simp
    show ?thesis
    proof (cases r2)
      case (Ok ins)
      with r1 show ?thesis by (rule go)
    next
      case (Throw e)
      with r1 show ?thesis by (intro stop2) simp_all
    next
      case Undefined
      with r1 show ?thesis by (intro stop2) simp_all
    qed
  next
    case (Throw e)
    then show ?thesis by (intro stop1) simp
  next
    case Undefined
    then show ?thesis by (intro stop1) simp
  qed
qed

lemma calls_main:
  assumes "main w = Some (tr, st)"
  shows "\<exists>n. prefix (calls tr) (single_pass w n)"
proof -
  from assms obtain tr0 r where b: "main_body w = Some (tr0, r)" and "calls tr = calls tr0"
    by (auto simp add: main_def calls_append split: option.splits res.splits)
  with calls_main_body[OF b] show ?thesis by simp
qed

section \<open>The claims\<close>

subsection \<open>Verification verdict\<close>

text \<open>
  Claim C1. The verification reports SUCCESS exactly when every element satisfies
  \<open>|output[i] - (in0[i] + in1[i]) * in2[i]| \<le> 1e-3\<close>, and otherwise FAILURE with the maximum
  deviation. The code tests \<^verbatim>\<open>diff > 1e-3\<close>, which is false for a deviation that is not a
  number: on an output of four NaNs, with the inputs the sample generator fills, no element
  is within the tolerance, and the run prints SUCCESS and exits with status 0.
\<close>

theorem nan_output_reported_as_success:
  "main (sample_world\<lparr>infer := (\<lambda>k a b c. Inr (a\<lparr>data := replicate 4 NaN\<rparr>)),
                      clock_now := (\<lambda>k. of_nat k * 30)\<rparr>) =
     Some ([Call CreateCore, Call AddExtension,
            Out [S ''Registered CustomAddMul extension.''],
            Call GetAvailableDevices,
            Out [S ''Loading custom layer config from '', S ''custom_add_mul.xml'', S ''...''],
            Out [S ''Reading model from '', S ''model.xml'', S ''...''],
            Call (ReadModel ''model.xml''),
            Out [S ''Compiling model on GPU...''],
            Call (CompileModel ''GPU''
                   [(''CONFIG_FILE'', AnyString ''custom_add_mul.xml''),
                    (''INFERENCE_PRECISION_HINT'', AnyF32)]),
            Call CreateInferRequest,
            Call (GetInputTensor 0), Call (GetInputTensor 1), Call (GetInputTensor 2),
            Out [S ''Generating input data ('', N 2, S ''x'', N 2, S '')...''],
            Out [S ''Running inference...''],
            Call Infer, Call (GetOutputTensor 0),
            Out [S ''Verifying results...''],
            Out [S ''SUCCESS: Result matches expected output!''],
            Out [S (CHR 0x0A # ''Starting stress test for 30 seconds...'')],
            Call ClockNow, Call Infer, Call ClockNow,
            Out [S ''Stress test complete. Total iterations: '', I 1]],
           Ok 0) \<and>
   \<not> le_double (diff_at (replicate 4 NaN) [Fin (1 / 2), Fin (3 / 4), Fin 0, Fin (1 / 4)]
                   [Fin (1 / 2), Fin (3 / 4), Fin 0, Fin (1 / 4)]
                   [Fin (1 / 2), Fin (3 / 4), Fin 0, Fin (1 / 4)] 0) tolerance"
  by code_simp

text \<open>
  Where no deviation is a NaN the verdict is as the claim says: the flag is the conjunction
  of the tolerance tests, and on failure the reported value is one of the deviations and is
  at least every deviation. The hypotheses on the sizes say that the loop reads inside the
  four buffers.
\<close>

theorem verify_without_nan:
  assumes "get_size output \<le> length (data output)"
    and "get_size output \<le> length (data input0)"
    and "get_size output \<le> length (data input1)"
    and "get_size output \<le> length (data input2)"
    and "\<forall>i < get_size output. diff_at (data output) (data input0) (data input1) (data input2) i \<noteq> NaN"
  shows "\<exists>max_diff success lines.
     verify output input0 input1 input2 = Some (max_diff, success, lines) \<and>
     success = (\<forall>i < get_size output.
        le_double (diff_at (data output) (data input0) (data input1) (data input2) i) tolerance) \<and>
     (\<not> success \<longrightarrow>
        (\<exists>i < get_size output.
           max_diff = diff_at (data output) (data input0) (data input1) (data input2) i) \<and>
        (\<forall>i < get_size output.
           fle (diff_at (data output) (data input0) (data input1) (data input2) i) max_diff))"
proof -
  let ?y = "data output" and ?a = "data input0" and ?b = "data input1" and ?c = "data input2"
  let ?n = "get_size output"
  let ?d = "diff_at ?y ?a ?b ?c"
  let ?r = "fold (verify_step ?y ?a ?b ?c) [0..<?n] (Fin 0, True, [])"
  let ?vs = "filter (violates ?y ?a ?b ?c) [0..<?n]"
  have v: "verify output input0 input1 input2 = Some ?r"
    unfolding verify_def using assms(1-4) by (intro verify_loop_fold)
  obtain m s tr where r: "?r = (m, s, tr)" by (cases ?r)
  have viol: "\<And>i. i < ?n \<Longrightarrow> violates ?y ?a ?b ?c i = (\<not> le_double (?d i) tolerance)"
    using assms(5) by (simp add: violates_def gt_le_double)
  have s: "s = (\<forall>i < ?n. le_double (?d i) tolerance)"
    using fold_verify_flag[of ?y ?a ?b ?c "[0..<?n]" "Fin 0" True "[]"] r viol by auto
  have m: "m = fold (\<lambda>i m. fmax m (?d i)) ?vs (Fin 0)"
    using fold_verify_max[of ?y ?a ?b ?c "[0..<?n]" "Fin 0" True "[]"] r by simp
  have nn: "\<forall>i \<in> set ?vs. ?d i \<noteq> NaN" using assms(5) by simp
  from fold_fmax[of "Fin 0" ?vs ?d, OF _ nn] m
  have p: "m \<noteq> NaN" "\<forall>i \<in> set ?vs. fle (?d i) m" "m = Fin 0 \<or> (\<exists>i \<in> set ?vs. m = ?d i)"
    by simp_all
  have "(\<exists>i < ?n. m = ?d i) \<and> (\<forall>i < ?n. fle (?d i) m)" if ns: "\<not> s"
  proof -
    from ns s obtain j where j: "j < ?n" "violates ?y ?a ?b ?c j" using viol by auto
    then have jv: "j \<in> set ?vs" by simp
    have tol: "0 < tolerance" by (simp add: tolerance_eq)
    have "m \<noteq> Fin 0"
    proof
      assume z: "m = Fin 0"
      from p(2) jv have "fle (?d j) (Fin 0)" unfolding z by blast
      moreover from j(2) have "gt_double (?d j) tolerance" by (simp add: violates_def)
      ultimately show False using tol by (cases "?d j") auto
    qed
    with p(3) obtain i where i: "i \<in> set ?vs" "m = ?d i" by blast
    then have gi: "gt_double m tolerance" by (simp add: violates_def)
    have "fle (?d k) m" if k: "k < ?n" for k
    proof (cases "violates ?y ?a ?b ?c k")
      case True
      with k p(2) show ?thesis by simp
    next
      case False
      with k viol have "le_double (?d k) tolerance" by simp
      then show ?thesis using gi by (rule fle_across_tolerance)
    qed
    with i show ?thesis by auto
  qed
  with v r s show ?thesis by simp
qed

theorem verify_without_nan_witness:
  "verify (row [Fin 3, Fin 0, Fin 5]) (row [Fin 0, Fin 0, Fin 0]) (row [Fin 0, Fin 0, Fin 0])
      (row [Fin 0, Fin 0, Fin 0]) =
      Some (Fin 5, False, [mismatch_line 0 (Fin 3) (Fin 0), mismatch_line 2 (Fin 5) (Fin 0)]) \<and>
   (\<exists>max_diff success lines.
     verify (row [Fin 3, Fin 0, Fin 5]) (row [Fin 0, Fin 0, Fin 0]) (row [Fin 0, Fin 0, Fin 0])
        (row [Fin 0, Fin 0, Fin 0]) = Some (max_diff, success, lines) \<and>
     success = (\<forall>i < 3. le_double (diff_at [Fin 3, Fin 0, Fin 5] [Fin 0, Fin 0, Fin 0]
                   [Fin 0, Fin 0, Fin 0] [Fin 0, Fin 0, Fin 0] i) tolerance) \<and>
     (\<not> success \<longrightarrow>
        (\<exists>i < 3. max_diff = diff_at [Fin 3, Fin 0, Fin 5] [Fin 0, Fin 0, Fin 0]
                   [Fin 0, Fin 0, Fin 0] [Fin 0, Fin 0, Fin 0] i) \<and>
        (\<forall>i < 3. fle (diff_at [Fin 3, Fin 0, Fin 5] [Fin 0, Fin 0, Fin 0]
                   [Fin 0, Fin 0, Fin 0] [Fin 0, Fin 0, Fin 0] i) max_diff)))"
  (is "?run \<and> ?instance")
proof -
  have run: ?run
    by code_simp
  have sz: "get_size (row [Fin 3, Fin 0, Fin 5]) = 3"
    by (simp add: get_size_def row_def)
  have d: "data (row xs) = xs" for xs
    by (simp add: row_def)
  have nn: "\<forall>i < get_size (row [Fin 3, Fin 0, Fin 5]).
     diff_at (data (row [Fin 3, Fin 0, Fin 5])) (data (row [Fin 0, Fin 0, Fin 0]))
       (data (row [Fin 0, Fin 0, Fin 0])) (data (row [Fin 0, Fin 0, Fin 0])) i \<noteq> NaN"
    unfolding sz d
  proof (intro allI impI)
    fix i :: nat
    assume "i < 3"
    then have "i = 0 \<or> i = 1 \<or> i = 2" by arith
    then show "diff_at [Fin 3, Fin 0, Fin 5] [Fin 0, Fin 0, Fin 0] [Fin 0, Fin 0, Fin 0]
        [Fin 0, Fin 0, Fin 0] i \<noteq> NaN"
      by (auto simp add: diff_at_def expected_at_def fsub_def round_f32_0 round_f32_3
            round_f32_5)
  qed
  have ?instance
    using verify_without_nan[of "row [Fin 3, Fin 0, Fin 5]" "row [Fin 0, Fin 0, Fin 0]"
        "row [Fin 0, Fin 0, Fin 0]" "row [Fin 0, Fin 0, Fin 0]", OF _ _ _ _ nn]
    unfolding sz d by simp
  with run show ?thesis ..
qed

subsection \<open>Mismatch lines\<close>




subsection \<open>Exit status\<close>

text \<open>
  Claim C3. The process exits with status 0 exactly when the body of the \<^verbatim>\<open>try\<close> block
  runs to its end, whatever the verdict of the verification was, and with the effects of
  the body. It exits with status 1 exactly when an exception leaves the body; the exception
  then comes out of an engine call, and after that call the only effect is the message on
  \<^verbatim>\<open>std::cerr\<close>. Nothing is tried again: the calls of a run that exits are an initial part
  of one pass through the calls of the procedure.
\<close>

theorem main_exit_status:
  "((main w = Some (tr, Ok 0)) = (main_body w = Some (tr, Ok ()))) \<and>
   ((main w = Some (tr, Ok 1)) =
      (\<exists>tr' c e. main_body w = Some (tr' @ [Call c], Throw e) \<and>
                 tr = tr' @ [Call c, Err [S ''Exception: '', S e]])) \<and>
   (main w = Some (tr, st) \<longrightarrow> (\<exists>n. prefix (calls tr) (single_pass w n)))"
proof (intro conjI impI)
  show "(main w = Some (tr, Ok 0)) = (main_body w = Some (tr, Ok ()))"
    by (auto simp add: main_def split: option.splits res.splits)
  show "(main w = Some (tr, Ok 1)) =
      (\<exists>tr' c e. main_body w = Some (tr' @ [Call c], Throw e) \<and>
                 tr = tr' @ [Call c, Err [S ''Exception: '', S e]])"
  proof (cases "main_body w")
    case None
    then show ?thesis by (simp add: main_def)
  next
    case (Some b)
    obtain tr0 r where b: "b = (tr0, r)" by (cases b)
    show ?thesis
    proof (cases r)
      case (Ok u)
      with Some b show ?thesis by (auto simp add: main_def)
    next
      case (Throw e)
      with Some b main_body_Throw obtain tr' c where "tr0 = tr' @ [Call c]" by blast
      with Some b Throw show ?thesis by (auto simp add: main_def)
    next
      case Undefined
      with Some b show ?thesis by (auto simp add: main_def)
    qed
  qed
  assume "main w = Some (tr, st)"
  then show "\<exists>n. prefix (calls tr) (single_pass w n)"
    by (rule calls_main)
qed

text \<open>
  Two runs: a kernel that writes zeros is reported as a FAILURE and the status is 0; a model
  file that cannot be read gives the message and the status 1, after four calls.
\<close>

theorem main_exit_status_witness:
  "main_body (sample_world\<lparr>infer := (\<lambda>k a b c. Inr (a\<lparr>data := replicate 4 (Fin 0)\<rparr>)),
                            clock_now := (\<lambda>k. of_nat k * 30)\<rparr>) =
     Some ([Call CreateCore, Call AddExtension,
            Out [S ''Registered CustomAddMul extension.''],
            Call GetAvailableDevices,
            Out [S ''Loading custom layer config from '', S ''custom_add_mul.xml'', S ''...''],
            Out [S ''Reading model from '', S ''model.xml'', S ''...''],
            Call (ReadModel ''model.xml''),
            Out [S ''Compiling model on GPU...''],
            Call (CompileModel ''GPU''
                   [(''CONFIG_FILE'', AnyString ''custom_add_mul.xml''),
                    (''INFERENCE_PRECISION_HINT'', AnyF32)]),
            Call CreateInferRequest,
            Call (GetInputTensor 0), Call (GetInputTensor 1), Call (GetInputTensor 2),
            Out [S ''Generating input data ('', N 2, S ''x'', N 2, S '')...''],
            Out [S ''Running inference...''],
            Call Infer, Call (GetOutputTensor 0),
            Out [S ''Verifying results...''],
            Out [S ''Mismatch at '', N 0, S '': got '', F (Fin 0), S '', expected '', F (Fin (1 / 2))],
            Out [S ''Mismatch at '', N 1, S '': got '', F (Fin 0), S '', expected '', F (Fin (9 / 8))],
            Out [S ''Mismatch at '', N 3, S '': got '', F (Fin 0), S '', expected '', F (Fin (1 / 8))],
            Out [S ''FAILURE: Max difference: '', F (Fin (9 / 8))],
            Out [S (CHR 0x0A # ''Starting stress test for 30 seconds...'')],
            Call ClockNow, Call Infer, Call ClockNow,
            Out [S ''Stress test complete. Total iterations: '', I 1]],
           Ok ()) \<and>
   (\<exists>tr' c e. main_body (sample_world\<lparr>read_model := (\<lambda>p. Inl ''model.xml not found'')\<rparr>) =
        Some (tr' @ [Call c], Throw e) \<and>
      [Call CreateCore, Call AddExtension,
       Out [S ''Registered CustomAddMul extension.''],
       Call GetAvailableDevices,
       Out [S ''Loading custom layer config from '', S ''custom_add_mul.xml'', S ''...''],
       Out [S ''Reading model from '', S ''model.xml'', S ''...''],
       Call (ReadModel ''model.xml''),
       Err [S ''Exception: '', S ''model.xml not found'']] =
      tr' @ [Call c, Err [S ''Exception: '', S e]]) \<and>
   (\<exists>n. prefix [CreateCore, AddExtension, GetAvailableDevices, ReadModel ''model.xml'']
          (single_pass (sample_world\<lparr>read_model := (\<lambda>p. Inl ''model.xml not found'')\<rparr>) n))"
  (is "?completed \<and> (\<exists>tr' c e. main_body ?w1 = _ \<and> ?tr1 = _) \<and> ?once")
proof (intro conjI)
  show ?completed
    unfolding main_exit_status[THEN conjunct1, symmetric] by code_simp
  have run1: "main ?w1 = Some (?tr1, Ok 1)"
    by code_simp
  then show "\<exists>tr' c e. main_body ?w1 = Some (tr' @ [Call c], Throw e) \<and>
      ?tr1 = tr' @ [Call c, Err [S ''Exception: '', S e]]"
    unfolding main_exit_status[THEN conjunct2, THEN conjunct1, symmetric] .
  from main_exit_status[THEN conjunct2, THEN conjunct2, rule_format, OF run1]
  show ?once by simp
qed

subsection \<open>Termination of the stress loop\<close>

text \<open>
  Claim C4. Time is in the model through the readings of the clock. That every inference
  call returns in finite time is taken as: every call returns, and every iteration takes
  at least \<open>d\<close> seconds, for some \<open>d > 0\<close> with \<open>30 \<le> d \<sqdot> (2\<^sup>3\<^sup>1 - 1)\<close> (14 nanoseconds are
  enough), so that 30 seconds pass before the \<^verbatim>\<open>int\<close> counter is exhausted. Then the stress
  test ends normally and reports a count \<open>n\<close> with \<open>1 \<le> n\<close>; \<open>n\<close> is the first check at which
  30 seconds have elapsed, and the loop leaves there: the time by which that check is past
  the 30-second mark is less than the time since the previous reading of the clock, which
  is the duration of the one iteration (one inference call) in which the mark was passed.
\<close>

theorem stress_test_terminates:
  assumes returns: "\<forall>k. \<exists>out. infer w k input0 input1 input2 = Inr out"
    and pace: "0 < d" "\<forall>k. d \<le> clock_now w (Suc k) - clock_now w k"
    and range: "30 \<le> d * 2147483647"
  shows "\<exists>n tr. stress_test w (input0, input1, input2) =
             Some (tr @ [Out [S ''Stress test complete. Total iterations: '', I (int n)]], Ok ()) \<and>
           1 \<le> n \<and>
           30 \<le> elapsed_at w n \<and>
           (\<forall>k. 1 \<le> k \<and> k < n \<longrightarrow> elapsed_at w k < 30) \<and>
           clock_now w n - (clock_now w 0 + 30) < clock_now w n - clock_now w (n - 1)"
proof -
  define m where "m = nat \<lceil>30 / d\<rceil>"
  have pos: "0 < 30 / d" using pace(1) by simp
  then have c: "0 < \<lceil>30 / d\<rceil>" by linarith
  then have m1: "1 \<le> m" unfolding m_def by linarith
  have "30 / d \<le> 2147483647" using range pace(1) by (simp add: field_simps)
  then have "\<lceil>30 / d\<rceil> \<le> 2147483647" by (simp add: ceiling_le_iff)
  then have m2: "m \<le> 2147483647" unfolding m_def by linarith
  have "30 / d \<le> of_int \<lceil>30 / d\<rceil>" by simp
  also have "(of_int \<lceil>30 / d\<rceil> :: rat) = of_nat m" using c by (simp add: m_def)
  finally have "30 \<le> of_nat m * d" using pace(1) by (simp add: field_simps)
  also have "\<dots> \<le> elapsed_at w m" using pace(2) by (rule elapsed_at_least)
  finally have m3: "30 \<le> elapsed_at w m" .
  from stress_test_ends_at_first_mark[OF returns m1 m2 m3] show ?thesis by blast
qed

theorem stress_test_terminates_witness:
  "(\<forall>k. \<exists>out. infer sample_world k (row [Fin 0]) (row [Fin 0]) (row [Fin 0]) = Inr out) \<and>
   (\<forall>k. 3 \<le> clock_now sample_world (Suc k) - clock_now sample_world k) \<and>
   (\<exists>n tr. stress_test sample_world (row [Fin 0], row [Fin 0], row [Fin 0]) =
             Some (tr @ [Out [S ''Stress test complete. Total iterations: '', I (int n)]], Ok ()) \<and>
           1 \<le> n \<and>
           30 \<le> elapsed_at sample_world n \<and>
           (\<forall>k. 1 \<le> k \<and> k < n \<longrightarrow> elapsed_at sample_world k < 30) \<and>
           clock_now sample_world n - (clock_now sample_world 0 + 30)
             < clock_now sample_world n - clock_now sample_world (n - 1))"
  (is "?returns \<and> ?pace \<and> ?instance")
proof -
  have returns: ?returns
    by (simp add: sample_world_def)
  have pace: ?pace
    by (simp add: sample_world_def algebra_simps)
  have ?instance
    by (rule stress_test_terminates[OF returns _ pace]) simp_all
  with returns pace show ?thesis by blast
qed

subsection \<open>Shape inference of the stub\<close>

text \<open>
  Claim C5. On a node with at least one input, \<^verbatim>\<open>validate_and_infer_types\<close> returns
  normally and changes only output 0, whose element type and partial shape become those of
  input 0. The result is the same whatever the other inputs are: nothing is read from
  them, and no agreement of the shapes is checked.
\<close>

theorem validate_and_infer_types_copies_input0:
  assumes "inputs n = (t0, s0) # others"
  shows "validate_and_infer_types n = Inr (n\<lparr>outputs := (outputs n)(0 \<mapsto> (t0, s0))\<rparr>) \<and>
         (\<forall>others'. validate_and_infer_types (n\<lparr>inputs := (t0, s0) # others'\<rparr>) =
            Inr (n\<lparr>inputs := (t0, s0) # others', outputs := (outputs n)(0 \<mapsto> (t0, s0))\<rparr>))"
  using assms
  by (simp add: validate_and_infer_types_def get_input_size_def get_input_element_type_def
        get_input_partial_shape_def set_output_type_def)

theorem validate_and_infer_types_copies_input0_witness:
  "inputs \<lparr>inputs = [(''f32'', [1, 3, 4, 4]), (''f16'', [2 :: nat]), (''f32'', [])], outputs = Map.empty\<rparr>
     = (''f32'', [1, 3, 4, 4]) # [(''f16'', [2]), (''f32'', [])] \<and>
   validate_and_infer_types
     \<lparr>inputs = [(''f32'', [1, 3, 4, 4]), (''f16'', [2 :: nat]), (''f32'', [])], outputs = Map.empty\<rparr>
     = Inr \<lparr>inputs = [(''f32'', [1, 3, 4, 4]), (''f16'', [2]), (''f32'', [])],
            outputs = [0 \<mapsto> (''f32'', [1, 3, 4, 4])]\<rparr>"
  using validate_and_infer_types_copies_input0
    [of "\<lparr>inputs = [(''f32'', [1, 3, 4, 4]), (''f16'', [2 :: nat]), (''f32'', [])], outputs = Map.empty\<rparr>"
        "''f32''" "[1, 3, 4, 4]" "[(''f16'', [2]), (''f32'', [])]"]
  by simp

subsection \<open>The device check\<close>

text \<open>
  Claim C6. If the core and the extension are set up, and no name in the list of available
  devices contains GPU, then the body prints the warning and the list of all devices, each
  followed by a blank, on \<^verbatim>\<open>std::cerr\<close>, and goes on with \<open>run_model\<close>, the rest of the
  procedure (lines 72-162): its effects follow the warning and its outcome is the outcome of
  the body. The rest starts by announcing and reading the model.
\<close>

theorem no_gpu_warns_and_continues:
  assumes "create_core w = Inr ()" and "add_extension w = Inr ()"
    and "get_available_devices w = Inr devices"
    and "\<forall>d \<in> set devices. \<not> sublist ''GPU'' d"
  shows "main_body w =
     (case run_model w of
        None \<Rightarrow> None
      | Some (tr, r) \<Rightarrow>
          Some ([Call CreateCore, Call AddExtension,
                 Out [S ''Registered CustomAddMul extension.''],
                 Call GetAvailableDevices,
                 Err [S ''GPU not found! This tutorial requires an Intel GPU.''],
                 Err (S ''Available devices: '' # concat (map (\<lambda>d. [S d, S '' '']) devices))] @ tr,
                r)) \<and>
     (case run_model w of
        None \<Rightarrow> True
      | Some (tr, r) \<Rightarrow>
          take 3 tr = [Out [S ''Loading custom layer config from '', S ''custom_add_mul.xml'', S ''...''],
                       Out [S ''Reading model from '', S ''model.xml'', S ''...''],
                       Call (ReadModel ''model.xml'')])"
proof -
  have g: "\<not> gpu_found devices" using assms(4) by (simp add: gpu_found_iff)
  have s: "startup w =
     ([Call CreateCore, Call AddExtension, Out [S ''Registered CustomAddMul extension.''],
       Call GetAvailableDevices,
       Err [S ''GPU not found! This tutorial requires an Intel GPU.''],
       Err (S ''Available devices: '' # concat (map (\<lambda>d. [S d, S '' '']) devices))], Ok ())"
    using startup_ok[OF assms(1-3)] g by (simp add: gpu_warning_def available_devices_line_def)
  have p: "take 3 (fst (prepare w)) =
     [Out [S ''Loading custom layer config from '', S ''custom_add_mul.xml'', S ''...''],
      Out [S ''Reading model from '', S ''model.xml'', S ''...''],
      Call (ReadModel ''model.xml'')]"
    by (cases "read_model w ''model.xml''") (simp_all add: prepare_def Let_def and_then_simps)
  have "case run_model w of None \<Rightarrow> True
      | Some (tr, r) \<Rightarrow>
          take 3 tr = [Out [S ''Loading custom layer config from '', S ''custom_add_mul.xml'', S ''...''],
                       Out [S ''Reading model from '', S ''model.xml'', S ''...''],
                       Call (ReadModel ''model.xml'')]"
  proof (cases "prepare w")
    case (Pair tr0 r0)
    from p Pair have t: "take 3 tr0 =
     [Out [S ''Loading custom layer config from '', S ''custom_add_mul.xml'', S ''...''],
      Out [S ''Reading model from '', S ''model.xml'', S ''...''],
      Call (ReadModel ''model.xml'')]" by simp
    then have "length (take 3 tr0) = 3" by simp
    then have l: "3 \<le> length tr0" by simp
    show ?thesis
      using t l Pair
      by (cases r0) (auto simp add: run_model_def and_then_opt_def split: option.splits)
  qed
  then show ?thesis
    by (simp add: main_body_def s and_then_opt_def split: option.splits)
qed

theorem no_gpu_warns_and_continues_witness:
  "\<not> sublist ''GPU'' ''CPU'' \<and> \<not> sublist ''GPU'' ''NPU'' \<and>
   main_body (sample_world\<lparr>get_available_devices := Inr [''CPU'', ''NPU''],
                            clock_now := (\<lambda>k. of_nat k * 30)\<rparr>) =
     Some ([Call CreateCore, Call AddExtension,
            Out [S ''Registered CustomAddMul extension.''],
            Call GetAvailableDevices,
            Err [S ''GPU not found! This tutorial requires an Intel GPU.''],
            Err [S ''Available devices: '', S ''CPU'', S '' '', S ''NPU'', S '' ''],
            Out [S ''Loading custom layer config from '', S ''custom_add_mul.xml'', S ''...''],
            Out [S ''Reading model from '', S ''model.xml'', S ''...''],
            Call (ReadModel ''model.xml''),
            Out [S ''Compiling model on GPU...''],
            Call (CompileModel ''GPU''
                   [(''CONFIG_FILE'', AnyString ''custom_add_mul.xml''),
                    (''INFERENCE_PRECISION_HINT'', AnyF32)]),
            Call CreateInferRequest,
            Call (GetInputTensor 0), Call (GetInputTensor 1), Call (GetInputTensor 2),
            Out [S ''Generating input data ('', N 2, S ''x'', N 2, S '')...''],
            Out [S ''Running inference...''],
            Call Infer, Call (GetOutputTensor 0),
            Out [S ''Verifying results...''],
            Out [S ''SUCCESS: Result matches expected output!''],
            Out [S (CHR 0x0A # ''Starting stress test for 30 seconds...'')],
            Call ClockNow, Call Infer, Call ClockNow,
            Out [S ''Stress test complete. Total iterations: '', I 1]],
           Ok ())"
  (is "_ \<and> _ \<and> main_body ?w = Some (?tr, Ok ())")
proof -
  have n1: "\<not> sublist ''GPU'' ''CPU''" and n2: "\<not> sublist ''GPU'' ''NPU''"
    by (simp_all add: sublist_Cons_right)
  then have none: "\<forall>d \<in> set [''CPU'', ''NPU'']. \<not> sublist ''GPU'' d"
    by simp
  have rest: "run_model ?w = Some (drop 6 ?tr, Ok ())"
    by code_simp
  have "main_body ?w =
     (case run_model ?w of
        None \<Rightarrow> None
      | Some (tr, r) \<Rightarrow>
          Some ([Call CreateCore, Call AddExtension,
                 Out [S ''Registered CustomAddMul extension.''],
                 Call GetAvailableDevices,
                 Err [S ''GPU not found! This tutorial requires an Intel GPU.''],
                 Err (S ''Available devices: '' # concat (map (\<lambda>d. [S d, S '' '']) [''CPU'', ''NPU'']))] @ tr,
                r))"
    using no_gpu_warns_and_continues[of ?w "[''CPU'', ''NPU'']", OF _ _ _ none]
    by (simp add: sample_world_def)
  with rest n1 n2 show ?thesis by simp
qed

subsection \<open>The random fill\<close>

text \<open>
  Claim C7. \<^verbatim>\<open>fill_tensor\<close> seeds a fresh generator with 42 on every call, so what it
  writes is the sequence of the first \<open>get_size\<close> draws from that seed: two tensors with the
  same number of elements (each holding as many elements as its shape says) end with the
  same contents, whatever their shapes and earlier contents, and in any run with the same
  library. The range of one draw of \<^verbatim>\<open>std::uniform_real_distribution<float>(0.0f, 1.0f)\<close> is
  the library's contract, a hypothesis here; under it every value written is at least 0 and
  below 1.
\<close>

theorem fill_tensor_deterministic:
  assumes "get_size t1 = get_size t2"
    and "length (data t1) = get_size t1" and "length (data t2) = get_size t2"
    and "\<forall>g. in_unit_interval (fst (uniform_real lib g))"
  shows "\<exists>t1' t2'. fill_tensor lib t1 = Some t1' \<and> fill_tensor lib t2 = Some t2' \<and>
           data t1' = draws (uniform_real lib) (mt19937 lib 42) (get_size t1) \<and>
           data t2' = data t1' \<and>
           (\<forall>v \<in> set (data t1'). in_unit_interval v)"
proof -
  let ?d = "draws (uniform_real lib) (mt19937 lib 42) (get_size t1)"
  have 1: "fill_tensor lib t1 = Some (t1\<lparr>data := ?d\<rparr>)"
    using assms(2) by (simp add: fill_tensor_Some)
  have 2: "fill_tensor lib t2 = Some (t2\<lparr>data := ?d\<rparr>)"
    using assms(1,3) by (simp add: fill_tensor_Some)
  have "\<forall>v \<in> set ?d. in_unit_interval v"
    using assms(4) draws_in_range[of in_unit_interval "uniform_real lib"] by blast
  with 1 2 show ?thesis by simp
qed

theorem fill_tensor_deterministic_witness:
  "(\<forall>g. in_unit_interval (fst (uniform_real sample_std g))) \<and>
   (\<exists>t1' t2'.
      fill_tensor sample_std \<lparr>shape = [1, 1, 2, 2], data = replicate 4 (Fin 0)\<rparr> = Some t1' \<and>
      fill_tensor sample_std \<lparr>shape = [4], data = [NaN, PInf, Fin 7, Fin 0]\<rparr> = Some t2' \<and>
      data t1' = draws (uniform_real sample_std) (mt19937 sample_std 42) 4 \<and>
      data t2' = data t1' \<and>
      (\<forall>v \<in> set (data t1'). in_unit_interval v))"
proof -
  have range: "\<forall>g. in_unit_interval (fst (uniform_real sample_std g))"
  proof
    fix g :: nat
    have "g mod 4 < 4" by simp
    then have "(of_nat (g mod 4) :: rat) < of_nat 4" by (simp only: of_nat_less_iff)
    then show "in_unit_interval (fst (uniform_real sample_std g))"
      by (simp add: in_unit_interval_def sample_std_def)
  qed
  have s1: "get_size \<lparr>shape = [1, 1, 2, 2], data = replicate 4 (Fin 0)\<rparr> = 4"
    and s2: "get_size \<lparr>shape = [4], data = [NaN, PInf, Fin 7, Fin 0]\<rparr> = 4"
    by (simp_all add: get_size_def)
  from fill_tensor_deterministic[of "\<lparr>shape = [1, 1, 2, 2], data = replicate 4 (Fin 0)\<rparr>"
      "\<lparr>shape = [4], data = [NaN, PInf, Fin 7, Fin 0]\<rparr>" sample_std, OF _ _ _ range]
  have "\<exists>t1' t2'.
      fill_tensor sample_std \<lparr>shape = [1, 1, 2, 2], data = replicate 4 (Fin 0)\<rparr> = Some t1' \<and>
      fill_tensor sample_std \<lparr>shape = [4], data = [NaN, PInf, Fin 7, Fin 0]\<rparr> = Some t2' \<and>
      data t1' = draws (uniform_real sample_std) (mt19937 sample_std 42) 4 \<and>
      data t2' = data t1' \<and>
      (\<forall>v \<in> set (data t1'). in_unit_interval v)"
    unfolding s1 s2 by simp
  with range show ?thesis by blast
qed

subsection \<open>Progress lines of the stress loop\<close>

text \<open>
  Claim C8, as amended. The claim has a progress line after every tenth completed
  iteration. The loop tests the elapsed time first and leaves before printing (lines
  156-160), so the last iteration prints no progress line even when its number is a
  multiple of ten. When the stress test ends normally after \<open>n\<close> iterations, its printed
  lines are: the announcement, one progress line (with the count and the elapsed time) for
  every multiple of ten below \<open>n\<close>, in order, and the total \<open>n\<close>, once, at the end.
\<close>

theorem stress_test_output:
  assumes "stress_test w ins = Some (tr, Ok ())"
  shows "\<exists>n. 1 \<le> n \<and>
     filter is_output tr =
       [Out [S (CHR 0x0A # ''Starting stress test for 30 seconds...'')]] @
       map (\<lambda>k. progress_line (int k) (elapsed_at w k)) (filter (\<lambda>k. k mod 10 = 0) [1..<n]) @
       [Out [S ''Stress test complete. Total iterations: '', I (int n)]]"
proof -
  obtain a b c where ins: "ins = (a, b, c)" by (cases ins)
  let ?tr0 = "[Out [S (CHR 0x0A # ''Starting stress test for 30 seconds...'')], Call ClockNow]"
  from assms obtain tr' n' where
    loop: "stress_loop w (a, b, c) (clock_now w 0) (int 0) ?tr0 = Some (tr', Ok n')"
    by (auto simp add: stress_test_def ins Let_def split: option.splits prod.splits res.splits)
  from stress_loop_Ok_inv[OF loop] obtain n where n: "n' = int n" "0 < n" "n \<le> 2147483647"
    "\<forall>k. 0 < k \<and> k \<le> n \<longrightarrow> (\<exists>out. infer w k a b c = Inr out)"
    "\<forall>k. 0 < k \<and> k < n \<longrightarrow> elapsed_at w k < 30" "30 \<le> elapsed_at w n"
    by auto
  have "tr = ?tr0 @ concat (map (iteration_events w n) [Suc 0..<Suc n]) @
           [Out [S ''Stress test complete. Total iterations: '', I (int n)]]"
    using stress_test_run[OF n(4,2,3,5,6)] assms ins by (simp del: upt_Suc)
  then have "filter is_output tr =
       [Out [S (CHR 0x0A # ''Starting stress test for 30 seconds...'')]] @
       map (\<lambda>k. progress_line (int k) (elapsed_at w k)) (filter (\<lambda>k. k mod 10 = 0) [1..<n]) @
       [Out [S ''Stress test complete. Total iterations: '', I (int n)]]"
    using outputs_of_iterations[OF n(2), of w] by (simp del: upt_Suc)
  with n(2) show ?thesis by (intro exI[of _ n]) simp
qed

theorem stress_test_output_witness:
  "stress_test (sample_world\<lparr>clock_now := (\<lambda>k. of_nat k * 11 / 4)\<rparr>)
      (row [Fin 0], row [Fin 0], row [Fin 0]) =
     Some ([Out [S (CHR 0x0A # ''Starting stress test for 30 seconds...'')], Call ClockNow,
            Call Infer, Call ClockNow, Call Infer, Call ClockNow, Call Infer, Call ClockNow,
            Call Infer, Call ClockNow, Call Infer, Call ClockNow, Call Infer, Call ClockNow,
            Call Infer, Call ClockNow, Call Infer, Call ClockNow, Call Infer, Call ClockNow,
            Call Infer, Call ClockNow,
            Out [S ''Iterations: '', I 10, S '', Time: '', D (55 / 2), S ''s''],
            Call Infer, Call ClockNow,
            Out [S ''Stress test complete. Total iterations: '', I 11]], Ok ()) \<and>
   (\<exists>n. 1 \<le> n \<and>
     [Out [S (CHR 0x0A # ''Starting stress test for 30 seconds...'')],
      Out [S ''Iterations: '', I 10, S '', Time: '', D (55 / 2), S ''s''],
      Out [S ''Stress test complete. Total iterations: '', I 11]] =
       [Out [S (CHR 0x0A # ''Starting stress test for 30 seconds...'')]] @
       map (\<lambda>k. progress_line (int k)
                  (elapsed_at (sample_world\<lparr>clock_now := (\<lambda>k. of_nat k * 11 / 4)\<rparr>) k))
           (filter (\<lambda>k. k mod 10 = 0) [1..<n]) @
       [Out [S ''Stress test complete. Total iterations: '', I (int n)]])"
  (is "?run \<and> ?instance")
proof -
  have run: ?run
    by code_simp
  from stress_test_output[OF run] have ?instance
    by simp
  with run show ?thesis ..
qed

text \<open>
  Claim C8 as stated fails: with three seconds per iteration the loop ends at its tenth
  iteration, and the ten completed iterations print no progress line.
\<close>

theorem tenth_iteration_without_progress_line:
  "stress_test sample_world (row [Fin 0], row [Fin 0], row [Fin 0]) =
     Some ([Out [S (CHR 0x0A # ''Starting stress test for 30 seconds...'')], Call ClockNow,
            Call Infer, Call ClockNow, Call Infer, Call ClockNow, Call Infer, Call ClockNow,
            Call Infer, Call ClockNow, Call Infer, Call ClockNow, Call Infer, Call ClockNow,
            Call Infer, Call ClockNow, Call Infer, Call ClockNow, Call Infer, Call ClockNow,
            Call Infer, Call ClockNow,
            Out [S ''Stress test complete. Total iterations: '', I 10]], Ok ())"
  by code_simp

subsection \<open>The three inputs after the fill\<close>

text \<open>
  Claim C9. When the preparation (lines 72-110) ends normally, the three filled inputs hold
  the same value at every index that lies in all three, since each fill restarts the
  generator from the seed 42; so the reference value \<open>(in0[i] + in1[i]) * in2[i]\<close> is
  \<open>2 * x * x\<close>, in single-precision arithmetic, for the common value \<open>x\<close>.
\<close>

theorem filled_inputs_identical:
  assumes "prepare w = (tr, Ok (input0, input1, input2))"
    and "i < get_size input0" and "i < get_size input1" and "i < get_size input2"
  shows "data input0 ! i = data input1 ! i \<and> data input1 ! i = data input2 ! i \<and>
         fmul (fadd (data input0 ! i) (data input1 ! i)) (data input2 ! i) =
           fmul (fmul (Fin 2) (data input0 ! i)) (data input0 ! i)"
proof -
  from prepare_Ok[OF assms(1)] obtain t0 t1 t2 where
    f: "fill_tensor (std w) t0 = Some input0" "fill_tensor (std w) t1 = Some input1"
       "fill_tensor (std w) t2 = Some input2"
    by blast
  let ?dis = "uniform_real (std w)" and ?g = "mt19937 (std w) 42"
  have nth: "\<And>t t'. fill_tensor (std w) t = Some t' \<Longrightarrow> i < get_size t' \<Longrightarrow>
        data t' ! i = draws ?dis ?g (Suc i) ! i"
  proof -
    fix t t' assume a: "fill_tensor (std w) t = Some t'" "i < get_size t'"
    then have t': "t' = t\<lparr>data := draws ?dis ?g (get_size t) @ drop (get_size t) (data t)\<rparr>"
      by (simp add: fill_tensor_Some)
    then have "get_size t' = get_size t" by (simp add: get_size_def)
    with a(2) have "i < get_size t" by simp
    then show "data t' ! i = draws ?dis ?g (Suc i) ! i"
      using draws_nth_prefix[of i "get_size t" "Suc i" ?dis ?g]
      by (simp add: t' nth_append length_draws)
  qed
  have "data input0 ! i = draws ?dis ?g (Suc i) ! i"
       "data input1 ! i = draws ?dis ?g (Suc i) ! i"
       "data input2 ! i = draws ?dis ?g (Suc i) ! i"
    using nth f assms(2-4) by blast+
  then show ?thesis by (simp add: fadd_self)
qed

theorem filled_inputs_identical_witness:
  "prepare sample_world =
     ([Out [S ''Loading custom layer config from '', S ''custom_add_mul.xml'', S ''...''],
       Out [S ''Reading model from '', S ''model.xml'', S ''...''],
       Call (ReadModel ''model.xml''),
       Out [S ''Compiling model on GPU...''],
       Call (CompileModel ''GPU''
              [(''CONFIG_FILE'', AnyString ''custom_add_mul.xml''),
               (''INFERENCE_PRECISION_HINT'', AnyF32)]),
       Call CreateInferRequest,
       Call (GetInputTensor 0), Call (GetInputTensor 1), Call (GetInputTensor 2),
       Out [S ''Generating input data ('', N 2, S ''x'', N 2, S '')...'']],
      Ok (\<lparr>shape = [1, 1, 2, 2], data = [Fin (1 / 2), Fin (3 / 4), Fin 0, Fin (1 / 4)]\<rparr>,
          \<lparr>shape = [1, 1, 2, 2], data = [Fin (1 / 2), Fin (3 / 4), Fin 0, Fin (1 / 4)]\<rparr>,
          \<lparr>shape = [1, 1, 2, 2], data = [Fin (1 / 2), Fin (3 / 4), Fin 0, Fin (1 / 4)]\<rparr>)) \<and>
   fmul (fadd (Fin (3 / 4)) (Fin (3 / 4))) (Fin (3 / 4)) = fmul (fmul (Fin 2) (Fin (3 / 4))) (Fin (3 / 4))"
  (is "?run \<and> ?instance")
proof -
  have run: ?run
    by code_simp
  have i: "1 < get_size \<lparr>shape = [1, 1, 2, 2], data = [Fin (1 / 2), Fin (3 / 4), Fin 0, Fin (1 / 4)]\<rparr>"
    by (simp add: get_size_def)
  from filled_inputs_identical[OF run i i i] have ?instance
    by simp
  with run show ?thesis ..
qed

subsection \<open>The unchecked rank\<close>

text \<open>
  Claim C10. The reads \<^verbatim>\<open>shape[2]\<close> and \<^verbatim>\<open>shape[3]\<close> are both inside the shape of input 0
  exactly when its rank is at least 4. Nothing checks the rank: when the calls before the
  reads succeed and the rank is below 4, the run ends in the undefined read.
\<close>

theorem unchecked_rank_is_undefined:
  assumes "startup w = (tr0, Ok ())"
    and "read_model w ''model.xml'' = Inr ()"
    and "compile_model w ''GPU'' (config_map w ''custom_add_mul.xml'') = Inr ()"
    and "create_infer_request w = Inr ()"
    and "get_input_tensor w 0 = Inr input0"
    and "get_input_tensor w 1 = Inr input1"
    and "get_input_tensor w 2 = Inr input2"
  shows "((shape_at (shape input0) 2 \<noteq> None \<and> shape_at (shape input0) 3 \<noteq> None)
            = (4 \<le> length (shape input0))) \<and>
         (length (shape input0) < 4 \<longrightarrow> (\<exists>tr. main w = Some (tr, Undefined)))"
proof -
  have "\<exists>tr. main w = Some (tr, Undefined)" if low: "length (shape input0) < 4"
  proof -
    have "snd (prepare w) = Undefined"
      using assms(2-7) low by (rule rank_below_4_prepare)
    then obtain tr1 where "prepare w = (tr1, Undefined)"
      by (cases "prepare w") simp
    then show ?thesis
      by (simp add: main_def main_body_def run_model_def and_then_opt_def assms(1))
  qed
  then show ?thesis using shape_at_in_bounds[of "shape input0"] by blast
qed

theorem unchecked_rank_is_undefined_witness:
  "shape_at [2, 2] 2 = None \<and>
   (\<exists>tr. main (sample_world\<lparr>get_input_tensor :=
              (\<lambda>k. Inr \<lparr>shape = [2, 2], data = replicate 4 (Fin 0)\<rparr>)\<rparr>) = Some (tr, Undefined))"
proof -
  let ?w = "sample_world\<lparr>get_input_tensor := (\<lambda>k. Inr \<lparr>shape = [2, 2], data = replicate 4 (Fin 0)\<rparr>)\<rparr>"
  have st: "startup ?w =
     ([Call CreateCore, Call AddExtension, Out [S ''Registered CustomAddMul extension.''],
       Call GetAvailableDevices], Ok ())"
    by code_simp
  have "((shape_at (shape \<lparr>shape = [2, 2], data = replicate 4 (Fin 0)\<rparr>) 2 \<noteq> None \<and>
          shape_at (shape \<lparr>shape = [2, 2], data = replicate 4 (Fin 0)\<rparr>) 3 \<noteq> None)
            = (4 \<le> length (shape \<lparr>shape = [2, 2], data = replicate 4 (Fin 0)\<rparr>))) \<and>
         (length (shape \<lparr>shape = [2, 2], data = replicate 4 (Fin 0)\<rparr>) < 4 \<longrightarrow>
            (\<exists>tr. main ?w = Some (tr, Undefined)))"
    by (rule unchecked_rank_is_undefined[OF st]) (simp_all add: sample_world_def)
  then show ?thesis by (simp add: shape_at_def rd_def)
qed

end
